theory Spec2Isabelle
  imports Main "HOL-Library.AList" "HOL-Library.Sublist"
begin

section \<open>Strings\<close>

text \<open>
  A Python \<open>str\<close> is modelled as a \<open>string\<close>: a list of characters, each
  read as the code point of the same number (U+0000 to U+00FF). The character classes
  below are Python's, cut down to that range.
\<close>

definition LF :: char where "LF = CHR 0x0A"
definition CR :: char where "CR = CHR 0x0D"

text \<open>\<open>str.isspace\<close> on one character: the characters \<open>str.strip()\<close> removes.\<close>

definition isspace :: "char \<Rightarrow> bool" where
  "isspace c = (of_char c \<in> {9, 10, 11, 12, 13, 28, 29, 30, 31, 32, 133, 160 :: nat})"

text \<open>The line boundaries of \<open>str.splitlines()\<close>.\<close>

definition is_linebreak :: "char \<Rightarrow> bool" where
  "is_linebreak c = (of_char c \<in> {10, 11, 12, 13, 28, 29, 30, 133 :: nat})"

text \<open>The regular-expression class \<open>[a-zA-Z0-9]\<close>.\<close>

definition ascii_alnum :: "char \<Rightarrow> bool" where
  "ascii_alnum c = (let n = (of_char c :: nat) in
     (48 \<le> n \<and> n \<le> 57) \<or> (65 \<le> n \<and> n \<le> 90) \<or> (97 \<le> n \<and> n \<le> 122))"

text \<open>The class \<open>[A-Za-z0-9_\-]\<close>, whose complement \<open>slugify\<close> deletes.\<close>

definition slug_char :: "char \<Rightarrow> bool" where
  "slug_char c = (ascii_alnum c \<or> c = CHR ''_'' \<or> c = CHR ''-'')"

text \<open>\<open>s.strip()\<close>: leading and trailing whitespace removed.\<close>

definition py_strip :: "string \<Rightarrow> string" where
  "py_strip s = rev (dropWhile isspace (rev (dropWhile isspace s)))"

text \<open>\<open>str.lower()\<close> on the modelled range: A-Z and the Latin-1 capitals.\<close>

definition lower_char :: "char \<Rightarrow> char" where
  "lower_char c = (let n = (of_char c :: nat) in
     if (65 \<le> n \<and> n \<le> 90) \<or> (192 \<le> n \<and> n \<le> 214) \<or> (216 \<le> n \<and> n \<le> 222)
     then char_of (n + 32) else c)"

definition py_lower :: "string \<Rightarrow> string" where
  "py_lower s = map lower_char s"

section \<open>slugify\<close>

text \<open>
  \<open>drop_ext s\<close> is the text before a match of \<open>\.[a-zA-Z0-9]{1,5}\<close> that ends
  where \<open>s\<close> ends: \<open>s\<close> is that text, a dot, and one to five characters of the class.
  The class has no dot, so the match is the run of class characters at the end of \<open>s\<close>
  with the dot before it.
\<close>

definition drop_ext :: "string \<Rightarrow> string option" where
  "drop_ext s =
     (let e = takeWhile ascii_alnum (rev s); r = dropWhile ascii_alnum (rev s)
      in if 1 \<le> length e \<and> length e \<le> 5 \<and> r \<noteq> [] \<and> hd r = CHR ''.''
         then Some (rev (tl r)) else None)"

text \<open>
  \<open>re.sub(r"\.[a-zA-Z0-9]{1,5}$", "", s)\<close>. Python's \<open>$\<close> matches at the end of
  the string and before a newline that is its last character; a match is deleted.
\<close>

definition sub_ext :: "string \<Rightarrow> string" where
  "sub_ext s =
     (case drop_ext s of
        Some p \<Rightarrow> p
      | None \<Rightarrow>
          if s \<noteq> [] \<and> last s = LF
          then (case drop_ext (butlast s) of Some p \<Rightarrow> p @ [LF] | None \<Rightarrow> s)
          else s)"

text \<open>
  \<open>slugify(name)\<close>. The source returns \<open>None\<close> for a name that is empty (or
  \<open>None\<close>): that is the result \<open>None\<close> here.
\<close>

definition slugify :: "string \<Rightarrow> string option" where
  "slugify name =
     (if name = [] then None
      else
        let s = py_strip name;
            s = sub_ext s;
            s = map (\<lambda>c. if c = CHR '' '' then CHR ''_'' else c) s;
            s = filter slug_char s;
            s = (if s = [] then ''model'' else s)
        in Some (take 150 s))"

section \<open>Exceptions\<close>

text \<open>
  Every \<open>raise\<close> of the source, and every exception of a library call it makes, is a
  value of this type. A function that can raise returns \<open>exn + 'a\<close>, with \<open>Inl\<close>
  for the exception. \<open>RuntimeError\<close> carries its message, the other exceptions do not.
  \<open>BadZipFile\<close>, \<open>ZlibError\<close> (\<open>zlib.error\<close>), \<open>NotImplementedError\<close> and
  \<open>PasswordRequired\<close> are what \<open>zipfile\<close> raises on an archive it cannot read; the last
  is its \<open>RuntimeError\<close> for an encrypted member (\<open>File ... is encrypted, password required
  for extraction\<close>).
\<close>

datatype exn =
    RuntimeError string
  | ValueError
  | TypeError
  | OverflowError
  | FileExistsError
  | FileNotFoundError
  | NotADirectoryError
  | IsADirectoryError
  | ShutilError
  | UniqueViolation
  | DataError
  | NotModelled
  | BadZipFile
  | ZlibError
  | NotImplementedError
  | PasswordRequired

section \<open>parse_metadata_from_text\<close>

text \<open>
  \<open>text.splitlines()\<close>: the text is cut at every line boundary, \<open>\r\n\<close> counting
  as one; a boundary at the very end opens no further line.
\<close>

fun splitlines :: "string \<Rightarrow> string list" where
  "splitlines [] = []"
| "splitlines (c # cs) =
     (if is_linebreak c then
        (case cs of
           d # ds \<Rightarrow> if c = CR \<and> d = LF then [] # splitlines ds else [] # splitlines cs
         | [] \<Rightarrow> [[]])
      else
        (case splitlines cs of
           [] \<Rightarrow> [[c]]
         | l # ls \<Rightarrow> (c # l) # ls))"

text \<open>\<open>s.split(c, 1)\<close>: at most one cut, at the first \<open>c\<close>.\<close>

definition split_first :: "char \<Rightarrow> string \<Rightarrow> string list" where
  "split_first c s =
     (if c \<in> set s then [takeWhile (\<lambda>x. x \<noteq> c) s, tl (dropWhile (\<lambda>x. x \<noteq> c) s)] else [s])"

text \<open>
  The \<open>dict\<close> the parser fills is an association list in insertion order;
  \<open>data[key] = val\<close> is \<open>AList.update\<close>, which overwrites a key where it stands and
  appends a new one. \<open>d.get(k)\<close> is \<open>map_of d k\<close>.
\<close>

type_synonym pydict = "(string \<times> string) list"

text \<open>
  The loop of \<open>parse_metadata_from_text\<close> over the lines. The tuple assignment
  \<open>key, val = line[1:].split(":", 1)\<close> raises \<open>ValueError\<close> unless the split has two
  parts.
\<close>

fun parse_metadata_lines :: "string list \<Rightarrow> pydict \<Rightarrow> exn + pydict" where
  "parse_metadata_lines [] data = Inr data"
| "parse_metadata_lines (raw_line # rest) data =
     (let line = py_strip raw_line in
      if line = [] \<or> hd line \<noteq> CHR ''#'' then parse_metadata_lines rest data
      else if CHR '':'' \<notin> set line then parse_metadata_lines rest data
      else
        (case split_first (CHR '':'') (tl line) of
           [key, val] \<Rightarrow>
             parse_metadata_lines rest (AList.update (py_strip key) (py_strip val) data)
         | _ \<Rightarrow> Inl ValueError))"

definition parse_metadata_from_text :: "string \<Rightarrow> exn + pydict" where
  "parse_metadata_from_text text = parse_metadata_lines (splitlines text) []"

text \<open>
  The specification's reading of the parser, for comparison with the code: a line
  qualifies when, trimmed, it is not empty, begins with \<open>#\<close> and holds a colon; its
  key and value are the trimmed texts on the two sides of the first colon after the
  marker; the last qualifying line of a key gives the key's value.
\<close>

definition spec_qualifies :: "string \<Rightarrow> bool" where
  "spec_qualifies raw = (let l = py_strip raw in l \<noteq> [] \<and> hd l = CHR ''#'' \<and> CHR '':'' \<in> set l)"

definition spec_key :: "string \<Rightarrow> string" where
  "spec_key raw = py_strip (takeWhile (\<lambda>x. x \<noteq> CHR '':'') (tl (py_strip raw)))"

definition spec_value :: "string \<Rightarrow> string" where
  "spec_value raw = py_strip (tl (dropWhile (\<lambda>x. x \<noteq> CHR '':'') (tl (py_strip raw))))"

definition spec_metadata :: "string \<Rightarrow> (string \<rightharpoonup> string)" where
  "spec_metadata text =
     map_of (rev (map (\<lambda>raw. (spec_key raw, spec_value raw))
                      (filter spec_qualifies (splitlines text))))"

text \<open>
  The specification's re-serialization of a parsed map: one line \<open>#Key: Value\<close> per
  entry, the lines joined by newlines.
\<close>

definition spec_line :: "string \<times> string \<Rightarrow> string" where
  "spec_line kv = ''#'' @ fst kv @ '': '' @ snd kv"

fun join_lines :: "string list \<Rightarrow> string" where
  "join_lines [] = []"
| "join_lines [l] = l"
| "join_lines (l # m # ls) = l @ LF # join_lines (m # ls)"

definition spec_serialize :: "pydict \<Rightarrow> string" where
  "spec_serialize d = join_lines (map spec_line d)"

text \<open>
  Predicates for the properties of the parser: a string that \<open>strip()\<close> leaves as it
  is; the entry the specification reads from a line; and an entry as the parser can produce
  it (trimmed key and value, no colon in the key, no line boundary in either).
\<close>

definition stripped :: "string \<Rightarrow> bool" where
  "stripped s = (s = [] \<or> (\<not> isspace (hd s) \<and> \<not> isspace (last s)))"

definition line_entry :: "string \<Rightarrow> string \<times> string" where
  "line_entry raw = (spec_key raw, spec_value raw)"

definition wf_entry :: "string \<times> string \<Rightarrow> bool" where
  "wf_entry kv = (stripped (fst kv) \<and> stripped (snd kv) \<and> CHR '':'' \<notin> set (fst kv) \<and>
     (\<forall>c\<in>set (fst kv) \<union> set (snd kv). \<not> is_linebreak c))"

section \<open>Paths\<close>

text \<open>
  A \<open>Path\<close> is the list of its components, as the program spells it. Every name the
  program joins to a path is a single file name (a slug, a name that \<open>os.walk\<close> or
  \<open>rglob\<close> returned, a literal folder name), so \<open>Path(b) / name\<close> is \<open>b @ [name]\<close>.
  \<open>str(p)\<close> joins the components with slashes.
\<close>

type_synonym path = "string list"

fun path_str :: "path \<Rightarrow> string" where
  "path_str [] = ''.''"
| "path_str [a] = a"
| "path_str (a # b # p) = a @ CHR ''/'' # path_str (b # p)"

text \<open>\<open>p.name\<close>: the last component, empty for the empty path.\<close>

definition path_name :: "path \<Rightarrow> string" where
  "path_name p = (if p = [] then [] else last p)"

text \<open>
  \<open>name.rfind('.')\<close> as pathlib uses it: \<open>Some i\<close> for the index of the last dot,
  \<open>None\<close> for Python's -1.
\<close>

definition rfind_dot :: "string \<Rightarrow> nat option" where
  "rfind_dot s =
     (if CHR ''.'' \<in> set s
      then Some (length s - Suc (length (takeWhile (\<lambda>c. c \<noteq> CHR ''.'') (rev s))))
      else None)"

text \<open>
  \<open>PurePath.suffix\<close> and \<open>PurePath.stem\<close> of a name: the name is cut at its last dot
  when that dot is neither its first nor its last character.
\<close>

definition name_suffix :: "string \<Rightarrow> string" where
  "name_suffix n =
     (case rfind_dot n of
        Some i \<Rightarrow> if 0 < i \<and> i < length n - 1 then drop i n else []
      | None \<Rightarrow> [])"

definition name_stem :: "string \<Rightarrow> string" where
  "name_stem n =
     (case rfind_dot n of
        Some i \<Rightarrow> if 0 < i \<and> i < length n - 1 then take i n else n
      | None \<Rightarrow> n)"

definition path_suffix :: "path \<Rightarrow> string" where
  "path_suffix p = name_suffix (path_name p)"

definition path_stem :: "path \<Rightarrow> string" where
  "path_stem p = name_stem (path_name p)"

text \<open>
  \<open>Path(s).stem\<close> for a string of the metadata, which may hold slashes: pathlib cuts
  it at the slashes and drops the empty components and the components \<open>.\<close>.
\<close>

fun split_on :: "char \<Rightarrow> string \<Rightarrow> string list" where
  "split_on c [] = [[]]"
| "split_on c (x # xs) =
     (if x = c then [] # split_on c xs
      else (case split_on c xs of p # ps \<Rightarrow> (x # p) # ps | [] \<Rightarrow> [[x]]))"

definition path_of_str :: "string \<Rightarrow> path" where
  "path_of_str s = filter (\<lambda>p. p \<noteq> [] \<and> p \<noteq> ''.'') (split_on (CHR ''/'') s)"

text \<open>\<open>f"{i}"\<close> for a non-negative integer: its decimal digits.\<close>

definition digit_char :: "nat \<Rightarrow> char" where
  "digit_char d = char_of (48 + d)"

fun str_of_nat :: "nat \<Rightarrow> string" where
  "str_of_nat n = (if n < 10 then [digit_char n] else str_of_nat (n div 10) @ [digit_char (n mod 10)])"

declare str_of_nat.simps [simp del]

section \<open>The filesystem\<close>

text \<open>
  What a file holds is modelled by what the two readers of the program make of it:
  \<open>zipfile.ZipFile\<close> finds an archive with its file members (their names already cleaned
  as \<open>extractall\<close> cleans them: relative, no empty, \<open>.\<close> or \<open>..\<close> component) or raises
  \<open>BadZipFile\<close> (\<open>None\<close>); decoding as UTF-8 gives a text or fails (\<open>None\<close>).
  Directory entries of an archive are left out: extraction creates the directories of the
  file members, and no later step looks at a directory of the workspace.

  A member of an archive that opens can still be damaged. \<open>Intact d\<close> is a member that
  extracts to a file holding \<open>d\<close>. \<open>Unopenable k\<close> is a member that \<open>ZipFile.open\<close>
  refuses before anything is written: a bad local header (\<open>BadZipFile\<close>), a compression
  method that is not supported (\<open>NotImplementedError\<close>), an encrypted member
  (\<open>RuntimeError\<close>). \<open>Broken k d\<close> is a member whose data fail while they are copied, when
  \<open>d\<close> has been written: a damaged compressed stream (\<open>zlib.error\<close>), a wrong checksum
  (\<open>BadZipFile\<close>).
\<close>

datatype open_damage = BadHeader | Unsupported | Encrypted

datatype read_damage = BadStream | BadCRC

datatype fdata = FData (archive: "(path \<times> member) list option") (utf8: "string option")
  and member = Intact fdata | Unopenable open_damage | Broken read_damage fdata

definition open_exn :: "open_damage \<Rightarrow> exn" where
  "open_exn k = (case k of BadHeader \<Rightarrow> BadZipFile | Unsupported \<Rightarrow> NotImplementedError
                 | Encrypted \<Rightarrow> PasswordRequired)"

definition read_exn :: "read_damage \<Rightarrow> exn" where
  "read_exn k = (case k of BadStream \<Rightarrow> ZlibError | BadCRC \<Rightarrow> BadZipFile)"

datatype node = Dir | File fdata

text \<open>
  The filesystem is the list of its entries, in the order in which a directory walk meets
  them. Distinct spellings are distinct entries: there are no links, and \<open>..\<close> is not
  resolved. The empty path is the directory all paths start from; it always exists.
\<close>

type_synonym filesys = "(path \<times> node) list"

definition node_at :: "filesys \<Rightarrow> path \<Rightarrow> node option" where
  "node_at fs p = (if p = [] then Some Dir else map_of fs p)"

definition fs_exists :: "filesys \<Rightarrow> path \<Rightarrow> bool" where
  "fs_exists fs p = (node_at fs p \<noteq> None)"

definition fs_is_dir :: "filesys \<Rightarrow> path \<Rightarrow> bool" where
  "fs_is_dir fs p = (node_at fs p = Some Dir)"

definition fs_is_file :: "filesys \<Rightarrow> path \<Rightarrow> bool" where
  "fs_is_file fs p = (case node_at fs p of Some (File d) \<Rightarrow> True | _ \<Rightarrow> False)"

section \<open>ensure_unique_dir\<close>

text \<open>
  The loop of \<open>ensure_unique_dir\<close> ends because the numbered candidates are
  pairwise different and the filesystem has finitely many entries; the lemmas before the
  function are its termination argument.
\<close>

lemma of_char_digit_char: "d < 10 \<Longrightarrow> of_char (digit_char d) = 48 + d"
proof -
  assume "d < 10"
  then have "(48 + d) mod 256 = 48 + d" by simp
  then show ?thesis unfolding digit_char_def of_char_of by simp
qed

lemma digit_char_inj: "a < 10 \<Longrightarrow> b < 10 \<Longrightarrow> digit_char a = digit_char b \<Longrightarrow> a = b"
proof -
  assume a: "a < 10" and b: "b < 10" and e: "digit_char a = digit_char b"
  have "48 + a = (of_char (digit_char a) :: nat)" using of_char_digit_char [OF a] by (rule sym)
  also have "\<dots> = of_char (digit_char b)" by (simp only: e)
  also have "\<dots> = 48 + b" by (rule of_char_digit_char [OF b])
  finally show "a = b" by (simp only: add_left_cancel)
qed

lemma str_of_nat_length: "length (str_of_nat n) = 1 \<longleftrightarrow> n < 10"
proof (cases "n < 10")
  case True
  then show ?thesis by (simp add: str_of_nat.simps [of n])
next
  case False
  have "str_of_nat (n div 10) \<noteq> []"
    by (subst str_of_nat.simps) simp
  then show ?thesis using False by (simp add: str_of_nat.simps [of n])
qed

lemma str_of_nat_inj: "str_of_nat m = str_of_nat n \<Longrightarrow> m = n"
proof (induction m arbitrary: n rule: str_of_nat.induct)
  case (1 m)
  show ?case
  proof (cases "m < 10")
    case True
    then have "n < 10" using "1.prems" str_of_nat_length [of m] str_of_nat_length [of n] by simp
    then show ?thesis using True "1.prems" digit_char_inj
      by (simp add: str_of_nat.simps [of m] str_of_nat.simps [of n])
  next
    case False
    then have n: "\<not> n < 10" using "1.prems" str_of_nat_length [of m] str_of_nat_length [of n] by simp
    have "str_of_nat (m div 10) @ [digit_char (m mod 10)] = str_of_nat (n div 10) @ [digit_char (n mod 10)]"
      using "1.prems" False n by (simp add: str_of_nat.simps [of m] str_of_nat.simps [of n])
    then have a: "str_of_nat (m div 10) = str_of_nat (n div 10)"
      and b: "digit_char (m mod 10) = digit_char (n mod 10)" by simp_all
    have "m div 10 = n div 10" using "1.IH" [OF False a] .
    moreover have "m mod 10 = n mod 10" using digit_char_inj [OF _ _ b] by simp
    ultimately show ?thesis by (metis div_mult_mod_eq)
  qed
qed

text \<open>The candidates \<open>base / f"{stem}_{i}{ext}"\<close> that exist are finitely many.\<close>

definition numbered :: "path \<Rightarrow> string \<Rightarrow> string \<Rightarrow> nat \<Rightarrow> path" where
  "numbered dir stem ext i = dir @ [stem @ ''_'' @ str_of_nat i @ ext]"

lemma numbered_inj: "numbered dir stem ext i = numbered dir stem ext j \<Longrightarrow> i = j"
  by (simp add: numbered_def str_of_nat_inj)

lemma finite_numbered: "finite {j. fs_exists fs (numbered dir stem ext j)}"
proof -
  have "\<And>p. fs_exists fs p \<Longrightarrow> p \<noteq> [] \<Longrightarrow> p \<in> fst ` set fs"
    by (simp add: fs_exists_def node_at_def map_of_eq_None_iff)
  moreover have "\<And>j. numbered dir stem ext j \<noteq> []" by (simp add: numbered_def)
  ultimately have "{j. fs_exists fs (numbered dir stem ext j)} \<subseteq> numbered dir stem ext -` (fst ` set fs)"
    by blast
  moreover have "finite (numbered dir stem ext -` (fst ` set fs))"
    by (rule finite_vimageI) (auto simp: inj_on_def dest: numbered_inj)
  ultimately show ?thesis by (rule finite_subset)
qed

lemma numbered_card_less:
  assumes "fs_exists fs (numbered dir stem ext i)"
  shows "card {j. Suc i \<le> j \<and> fs_exists fs (numbered dir stem ext j)}
       < card {j. i \<le> j \<and> fs_exists fs (numbered dir stem ext j)}"
proof (rule psubset_card_mono)
  show "finite {j. i \<le> j \<and> fs_exists fs (numbered dir stem ext j)}"
    using finite_numbered [of fs dir stem ext] by (rule rev_finite_subset) auto
  show "{j. Suc i \<le> j \<and> fs_exists fs (numbered dir stem ext j)}
      \<subset> {j. i \<le> j \<and> fs_exists fs (numbered dir stem ext j)}"
  proof
    show "{j. Suc i \<le> j \<and> fs_exists fs (numbered dir stem ext j)}
      \<subseteq> {j. i \<le> j \<and> fs_exists fs (numbered dir stem ext j)}" by auto
    have "i \<in> {j. i \<le> j \<and> fs_exists fs (numbered dir stem ext j)}" using assms by simp
    moreover have "i \<notin> {j. Suc i \<le> j \<and> fs_exists fs (numbered dir stem ext j)}" by simp
    ultimately show "{j. Suc i \<le> j \<and> fs_exists fs (numbered dir stem ext j)}
      \<noteq> {j. i \<le> j \<and> fs_exists fs (numbered dir stem ext j)}" by metis
  qed
qed

function ensure_unique_loop :: "filesys \<Rightarrow> path \<Rightarrow> string \<Rightarrow> path \<Rightarrow> nat \<Rightarrow> path" where
  "ensure_unique_loop fs base_out_dir desired_name candidate i =
     (if fs_exists fs candidate
      then ensure_unique_loop fs base_out_dir desired_name
             (base_out_dir @ [desired_name @ ''_'' @ str_of_nat i]) (i + 1)
      else candidate)"
  by pat_completeness auto
termination
proof (relation "measure (\<lambda>(fs, b, n, c, i).
          card {j. i \<le> j \<and> fs_exists fs (numbered b n [] j)} + (if fs_exists fs c then 1 else 0))")
  show "wf (measure (\<lambda>(fs, b, n, c, i).
          card {j. i \<le> j \<and> fs_exists fs (numbered b n [] j)} + (if fs_exists fs c then 1 else 0)))"
    by simp
next
  fix fs :: filesys and base_out_dir :: path and desired_name :: string and candidate :: path and i :: nat
  assume e: "fs_exists fs candidate"
  let ?E = "\<lambda>j. fs_exists fs (numbered base_out_dir desired_name [] j)"
  have c: "base_out_dir @ [desired_name @ ''_'' @ str_of_nat i] = numbered base_out_dir desired_name [] i"
    by (simp add: numbered_def)
  have "card {j. Suc i \<le> j \<and> ?E j} + (if ?E i then 1 else 0) \<le> card {j. i \<le> j \<and> ?E j}"
  proof (cases "?E i")
    case True
    then show ?thesis using numbered_card_less [of fs base_out_dir desired_name "[]" i] by simp
  next
    case False
    have "{j. Suc i \<le> j \<and> ?E j} = {j. i \<le> j \<and> ?E j}"
      using False by (auto simp: Suc_le_eq le_less)
    then show ?thesis using False by simp
  qed
  then have "card {j. Suc i \<le> j \<and> ?E j} + (if ?E i then 1 else 0)
      < card {j. i \<le> j \<and> ?E j} + (if fs_exists fs candidate then 1 else 0)"
    using e by simp
  then show "((fs, base_out_dir, desired_name, base_out_dir @ [desired_name @ ''_'' @ str_of_nat i], i + 1),
        (fs, base_out_dir, desired_name, candidate, i)) \<in> measure (\<lambda>(fs, b, n, c, i).
          card {j. i \<le> j \<and> fs_exists fs (numbered b n [] j)} + (if fs_exists fs c then 1 else 0))"
    unfolding c by simp
qed

declare ensure_unique_loop.simps [simp del]

definition ensure_unique_dir :: "filesys \<Rightarrow> path \<Rightarrow> string \<Rightarrow> path" where
  "ensure_unique_dir fs base_out_dir desired_name =
     ensure_unique_loop fs base_out_dir desired_name (base_out_dir @ [desired_name]) 1"

section \<open>Filesystem calls\<close>

text \<open>
  The library calls the importer makes, with the errors they raise on a filesystem of
  files and directories. Failures of the machine (permissions, a full disk) are outside
  the model.
\<close>

definition is_file_node :: "node \<Rightarrow> bool" where
  "is_file_node n = (case n of File d \<Rightarrow> True | Dir \<Rightarrow> False)"

text \<open>\<open>os.mkdir(p)\<close>.\<close>

definition os_mkdir :: "filesys \<Rightarrow> path \<Rightarrow> exn + filesys" where
  "os_mkdir fs p =
     (if fs_exists fs p then Inl FileExistsError
      else
        (case node_at fs (butlast p) of
           None \<Rightarrow> Inl FileNotFoundError
         | Some (File d) \<Rightarrow> Inl NotADirectoryError
         | Some Dir \<Rightarrow> Inr (fs @ [(p, Dir)])))"

text \<open>
  \<open>Path.mkdir(parents=\<dots>, exist_ok=\<dots>)\<close>, as pathlib writes it: \<open>os.mkdir\<close>; on
  \<open>FileNotFoundError\<close> with \<open>parents\<close> the parent is made first (with
  \<open>parents=True, exist_ok=True\<close>) and the directory after it; any other error is passed
  on unless \<open>exist_ok\<close> holds and the path is a directory. A call that fails has made
  no directory: the parents are made from the top, after the walk up has found where to
  start.
\<close>

function path_mkdir :: "bool \<Rightarrow> bool \<Rightarrow> filesys \<Rightarrow> path \<Rightarrow> exn + filesys" where
  "path_mkdir parents exist_ok fs p =
     (case os_mkdir fs p of
        Inr fs' \<Rightarrow> Inr fs'
      | Inl e \<Rightarrow>
          if e = FileNotFoundError then
            (if \<not> parents \<or> p = [] then Inl e
             else
               (case path_mkdir True True fs (butlast p) of
                  Inl e' \<Rightarrow> Inl e'
                | Inr fs1 \<Rightarrow> path_mkdir False exist_ok fs1 p))
          else if \<not> exist_ok \<or> \<not> fs_is_dir fs p then Inl e
          else Inr fs)"
  by pat_completeness auto
termination
  by (relation "measure (\<lambda>(parents, exist_ok, fs, p). 2 * length p + (if parents then 1 else 0))")
     auto

declare path_mkdir.simps [simp del]

text \<open>
  \<open>shutil.rmtree(p)\<close>: the directory and everything under it go. It raises for a
  path that is missing or is not a directory.
\<close>

definition remove_tree :: "filesys \<Rightarrow> path \<Rightarrow> filesys" where
  "remove_tree fs p = filter (\<lambda>(q, n). \<not> prefix p q) fs"

definition shutil_rmtree :: "filesys \<Rightarrow> path \<Rightarrow> exn + filesys" where
  "shutil_rmtree fs p =
     (case node_at fs p of
        None \<Rightarrow> Inl FileNotFoundError
      | Some (File d) \<Rightarrow> Inl NotADirectoryError
      | Some Dir \<Rightarrow> Inr (remove_tree fs p))"

text \<open>
  \<open>shutil.move(src, dst)\<close> for a source that is a regular file, which is all the
  importer moves (extracted files and archives). A destination that is a directory
  receives the file under its own name, and \<open>shutil.Error\<close> is raised if that name is
  taken there; otherwise the file is renamed, replacing a file at the destination. The
  move of a directory is not modelled: it is the outcome \<open>NotModelled\<close>.
\<close>

definition shutil_move :: "filesys \<Rightarrow> path \<Rightarrow> path \<Rightarrow> exn + filesys" where
  "shutil_move fs src dst =
     (let real_dst = (if fs_is_dir fs dst then dst @ [path_name src] else dst) in
      if fs_is_dir fs dst \<and> fs_exists fs real_dst then Inl ShutilError
      else
        (case node_at fs src of
           None \<Rightarrow> Inl FileNotFoundError
         | Some Dir \<Rightarrow> Inl NotModelled
         | Some (File d) \<Rightarrow>
             (case node_at fs (butlast real_dst) of
                None \<Rightarrow> Inl FileNotFoundError
              | Some (File d') \<Rightarrow> Inl NotADirectoryError
              | Some Dir \<Rightarrow>
                  Inr (filter (\<lambda>(q, n). q \<noteq> src \<and> q \<noteq> real_dst) fs @ [(real_dst, File d)]))))"

text \<open>
  Writing a file, as \<open>open(p, "wb")\<close> and the copy after it do: a new entry, or new
  contents for the file that is there.
\<close>

definition write_file :: "filesys \<Rightarrow> path \<Rightarrow> fdata \<Rightarrow> exn + filesys" where
  "write_file fs p d =
     (case node_at fs p of
        Some Dir \<Rightarrow> Inl IsADirectoryError
      | _ \<Rightarrow>
          (case node_at fs (butlast p) of
             None \<Rightarrow> Inl FileNotFoundError
           | Some (File d') \<Rightarrow> Inl NotADirectoryError
           | Some Dir \<Rightarrow> Inr (AList.update p (File d) fs)))"

text \<open>
  \<open>ZipFile.extractall(path=tmpdir)\<close>: each member in turn; the missing directories
  above it are made (\<open>os.makedirs\<close>, which behaves as \<open>mkdir(parents=True)\<close> on a path
  that does not exist), then the member is opened, then the file is opened for writing
  and the data are copied (\<open>with self.open(member) as source, open(targetpath, "wb") as
  target: shutil.copyfileobj(source, target)\<close>). The first error ends the extraction and
  leaves what was written.
\<close>

definition extract_member :: "filesys \<Rightarrow> path \<Rightarrow> path \<times> member \<Rightarrow> (exn + unit) \<times> filesys" where
  "extract_member fs tmpdir m =
     (let targetpath = tmpdir @ fst m; upperdirs = butlast targetpath in
      case (if \<not> fs_exists fs upperdirs then path_mkdir True False fs upperdirs else Inr fs) of
        Inl e \<Rightarrow> (Inl e, fs)
      | Inr fs1 \<Rightarrow>
          (case snd m of
             Unopenable k \<Rightarrow> (Inl (open_exn k), fs1)
           | Intact d \<Rightarrow>
               (case write_file fs1 targetpath d of
                  Inl e \<Rightarrow> (Inl e, fs1)
                | Inr fs2 \<Rightarrow> (Inr (), fs2))
           | Broken k d \<Rightarrow>
               (case write_file fs1 targetpath d of
                  Inl e \<Rightarrow> (Inl e, fs1)
                | Inr fs2 \<Rightarrow> (Inl (read_exn k), fs2))))"

fun extractall :: "filesys \<Rightarrow> path \<Rightarrow> (path \<times> member) list \<Rightarrow> (exn + unit) \<times> filesys" where
  "extractall fs tmpdir [] = (Inr (), fs)"
| "extractall fs tmpdir (m # ms) =
     (case extract_member fs tmpdir m of
        (Inl e, fs1) \<Rightarrow> (Inl e, fs1)
      | (Inr u, fs1) \<Rightarrow> extractall fs1 tmpdir ms)"

text \<open>
  \<open>[p for p in d.rglob('*') if p.is_file()]\<close>: the files below \<open>d\<close>, at any depth.
  \<open>rglob\<close> yields the entries in the order in which the system lists each directory,
  which the library does not fix; here that is the order of the entries in the list of the
  filesystem, where a new entry stands last. The results below that speak of the first
  file of a kind are stated over the list of files, whatever its order.
\<close>

definition rglob_files :: "filesys \<Rightarrow> path \<Rightarrow> path list" where
  "rglob_files fs d = map fst (filter (\<lambda>(p, n). strict_prefix d p \<and> is_file_node n) fs)"

text \<open>
  \<open>open(path, "r", encoding="utf-8")\<close> and \<open>read()\<close>: text mode turns \<open>\r\n\<close> and
  \<open>\r\<close> into \<open>\n\<close>.
\<close>

fun universal_newlines :: "string \<Rightarrow> string" where
  "universal_newlines [] = []"
| "universal_newlines [c] = (if c = CR then [LF] else [c])"
| "universal_newlines (c # d # ds) =
     (if c = CR \<and> d = LF then LF # universal_newlines ds
      else if c = CR then LF # universal_newlines (d # ds)
      else c # universal_newlines (d # ds))"

text \<open>
  \<open>try_open(path)\<close>. When the file cannot be opened or decoded, the \<open>except\<close> clause
  swallows the error and the function goes on to \<open>raise UnicodeDecodeError("Failed to
  open file", path)\<close>; that constructor takes five arguments, so building the exception
  raises \<open>TypeError\<close>, and \<open>TypeError\<close> is what leaves the function.
\<close>

definition try_open :: "filesys \<Rightarrow> path \<Rightarrow> exn + string" where
  "try_open fs p =
     (case node_at fs p of
        Some (File d) \<Rightarrow>
          (case utf8 d of Some t \<Rightarrow> Inr (universal_newlines t) | None \<Rightarrow> Inl TypeError)
      | _ \<Rightarrow> Inl TypeError)"

section \<open>File roles\<close>

definition GEOM_EXTS :: "string list" where
  "GEOM_EXTS = [''.obj'', ''.fbx'', ''.gltf'', ''.3ds'']"

text \<open>
  \<open>find_preview_file\<close> and \<open>find_geometry_file\<close>. The source passes \<open>str(p)\<close> and
  turns the answer back into a \<open>Path\<close>; the strings of paths are never empty, so the
  tests \<open>if p:\<close> and \<open>if g:\<close> on the answers are tests for \<open>None\<close>.
\<close>

definition find_preview_file :: "path list \<Rightarrow> path option" where
  "find_preview_file files =
     (case find (\<lambda>f. py_lower (path_suffix f) \<in> {''.jpg'', ''.jpeg''}) files of
        Some f \<Rightarrow> Some f
      | None \<Rightarrow> find (\<lambda>f. py_lower (path_suffix f) = ''.png'') files)"

definition find_geometry_file :: "path list \<Rightarrow> path option" where
  "find_geometry_file files = find (\<lambda>f. py_lower (path_suffix f) \<in> set GEOM_EXTS) files"

text \<open>The metadata file of \<open>process_one_zip\<close> (the \<open>.txt\<close> files and the choice among them).\<close>

definition select_metadata :: "path list \<Rightarrow> path \<Rightarrow> exn + path" where
  "select_metadata extracted_files zip_path =
     (let txt_files = filter (\<lambda>p. py_lower (path_suffix p) = ''.txt'') extracted_files in
      if txt_files = [] then
        Inl (RuntimeError (''No metadata .txt found in '' @ path_str zip_path))
      else
        (case find (\<lambda>p. py_lower (path_stem p) = py_lower (path_stem zip_path)) txt_files of
           Some p \<Rightarrow> Inr p
         | None \<Rightarrow> Inr (hd txt_files)))"

text \<open>
  The geometry file of \<open>process_one_zip\<close>: the file named by the hint, if the hint is a
  non-empty string and a file has that name; else the first file with a geometry
  extension; else the error.
\<close>

definition resolve_geometry :: "path list \<Rightarrow> string option \<Rightarrow> path \<Rightarrow> exn + path" where
  "resolve_geometry extracted_files geom_file_name zip_path =
     (let geometry_path =
            (case geom_file_name of
               Some g \<Rightarrow> if g \<noteq> [] then find (\<lambda>p. path_name p = g) extracted_files else None
             | None \<Rightarrow> None);
          geometry_path =
            (case geometry_path of
               None \<Rightarrow> find_geometry_file extracted_files
             | Some p \<Rightarrow> Some p)
      in case geometry_path of
           None \<Rightarrow>
             Inl (RuntimeError (''No geometry file found for '' @ path_str zip_path @
                    '' (expected '' @ (case geom_file_name of None \<Rightarrow> ''None'' | Some g \<Rightarrow> g) @ '')''))
         | Some p \<Rightarrow> Inr p)"

text \<open>The preview file of \<open>process_one_zip\<close>, in the same way.\<close>

definition resolve_preview :: "path list \<Rightarrow> string option \<Rightarrow> path \<Rightarrow> exn + path" where
  "resolve_preview extracted_files preview_hint zip_path =
     (let preview_path =
            (case preview_hint of
               Some h \<Rightarrow> if h \<noteq> [] then find (\<lambda>p. path_name p = h) extracted_files else None
             | None \<Rightarrow> None);
          preview_path =
            (case preview_path of
               None \<Rightarrow> find_preview_file extracted_files
             | Some p \<Rightarrow> Some p)
      in case preview_path of
           None \<Rightarrow> Inl (RuntimeError (''No preview image found (jpg/png) in '' @ path_str zip_path))
         | Some p \<Rightarrow> Inr p)"

section \<open>Numbers and dates of the record\<close>

definition ascii_digit :: "char \<Rightarrow> bool" where
  "ascii_digit c = (48 \<le> (of_char c :: nat) \<and> (of_char c :: nat) \<le> 57)"

text \<open>
  \<open>str.isdigit\<close> on one character: the ten digits and the superscripts one, two and
  three, which are digits to \<open>isdigit\<close> and not to \<open>int\<close>.
\<close>

definition isdigit_char :: "char \<Rightarrow> bool" where
  "isdigit_char c = (ascii_digit c \<or> (of_char c :: nat) \<in> {178, 179, 185})"

definition py_isdigit :: "string \<Rightarrow> bool" where
  "py_isdigit s = (s \<noteq> [] \<and> list_all isdigit_char s)"

definition digit_val :: "char \<Rightarrow> int" where
  "digit_val c = int (of_char c) - 48"

definition digits_val :: "string \<Rightarrow> int" where
  "digits_val s = foldl (\<lambda>a c. 10 * a + digit_val c) 0 s"

text \<open>
  \<open>int(s)\<close> for a string with \<open>s.isdigit()\<close>, the only strings the source gives it:
  the value of the decimal digits; \<open>ValueError\<close> for a superscript digit and for more
  than 4300 digits (the interpreter's limit on integer strings).
\<close>

definition py_int :: "string \<Rightarrow> exn + int" where
  "py_int s =
     (if s \<noteq> [] \<and> list_all ascii_digit s \<and> length s \<le> 4300 then Inr (digits_val s)
      else Inl ValueError)"

text \<open>
  \<open>float(s)\<close>. The literal: optional sign, then \<open>inf\<close>, \<open>infinity\<close> or \<open>nan\<close> in
  any case, or a decimal number with an optional exponent; a group of digits may hold
  single underscores between digits; whitespace around the literal is dropped. The value
  of a number is rounded to the nearest double (ties to even), and is infinite from
  \<open>2^1024\<close> on. A finite double is kept as its sign, an integer \<open>m\<close> and an exponent
  \<open>p\<close>: it is \<open>m * 2^p\<close>.
\<close>

datatype pyfloat = Finite bool int int | Infinite | NotANumber

fun digitpart :: "string \<Rightarrow> bool" where
  "digitpart [] = False"
| "digitpart [c] = ascii_digit c"
| "digitpart (c # d # s) =
     (ascii_digit c \<and> (if d = CHR ''_'' then s \<noteq> [] \<and> digitpart s else digitpart (d # s)))"

definition is_sign :: "char \<Rightarrow> bool" where
  "is_sign c = (c = CHR ''+'' \<or> c = CHR ''-'')"

definition strip_sign :: "string \<Rightarrow> bool \<times> string" where
  "strip_sign s =
     (case s of
        c # r \<Rightarrow> if is_sign c then (c = CHR ''-'', r) else (False, s)
      | [] \<Rightarrow> (False, s))"

function bit_length :: "int \<Rightarrow> int" where
  "bit_length n = (if n \<le> 0 then 0 else 1 + bit_length (n div 2))"
  by pat_completeness auto
termination
  by (relation "measure nat") auto

declare bit_length.simps [simp del]

text \<open>\<open>round_div n d\<close>: the integer nearest to \<open>n / d\<close>, the even one at a tie.\<close>

definition round_div :: "int \<Rightarrow> int \<Rightarrow> int" where
  "round_div n d =
     (let q = n div d; r = n mod d in
      if 2 * r < d then q else if 2 * r > d then q + 1 else if even q then q else q + 1)"

text \<open>
  The double nearest to \<open>n / d\<close> for positive \<open>n\<close> and \<open>d\<close>: with \<open>e\<close> the exponent
  of the leading bit of the quotient, the spacing of doubles there is \<open>2^p\<close> with
  \<open>p = max (e - 52) (-1074)\<close>.
\<close>

definition nearest_double :: "bool \<Rightarrow> int \<Rightarrow> int \<Rightarrow> pyfloat" where
  "nearest_double neg n d =
     (if n = 0 then Finite neg 0 0
      else
        let k = bit_length n - bit_length d;
            e = (if (if 0 \<le> k then d * 2 ^ nat k \<le> n else d \<le> n * 2 ^ nat (- k))
                 then k else k - 1);
            p = max (e - 52) (- 1074);
            m = (if 0 \<le> p then round_div n (d * 2 ^ nat p)
                 else round_div (n * 2 ^ nat (- p)) d)
        in if 0 \<le> p \<and> 2 ^ 1024 \<le> m * 2 ^ nat p then Infinite else Finite neg m p)"

text \<open>The value of the exponent part, after its \<open>e\<close>: \<open>None\<close> when it is not well formed.\<close>

definition exponent_val :: "string \<Rightarrow> int option" where
  "exponent_val s =
     (let (neg, ds) = strip_sign s in
      if digitpart ds then
        Some ((if neg then - 1 else 1) * digits_val (filter ascii_digit ds))
      else None)"

definition py_float :: "string \<Rightarrow> exn + pyfloat" where
  "py_float s0 =
     (let (neg, s) = strip_sign (py_strip s0);
          low = py_lower s
      in
        if low = ''inf'' \<or> low = ''infinity'' then Inr Infinite
        else if low = ''nan'' then Inr NotANumber
        else
          let is_e = (\<lambda>c. c = CHR ''e'' \<or> c = CHR ''E'');
              mant = takeWhile (\<lambda>c. \<not> is_e c) s;
              ex = dropWhile (\<lambda>c. \<not> is_e c) s;
              ip = takeWhile (\<lambda>c. c \<noteq> CHR ''.'') mant;
              fp = drop 1 (dropWhile (\<lambda>c. c \<noteq> CHR ''.'') mant);
              has_dot = (CHR ''.'' \<in> set mant);
              mant_ok = (if has_dot
                         then (ip = [] \<or> digitpart ip) \<and> (fp = [] \<or> digitpart fp) \<and>
                              \<not> (ip = [] \<and> fp = [])
                         else digitpart ip);
              ev = (if ex = [] then Some 0 else exponent_val (tl ex))
          in
            (case ev of
               None \<Rightarrow> Inl ValueError
             | Some x \<Rightarrow>
                 if \<not> mant_ok then Inl ValueError
                 else
                   let fd = filter ascii_digit fp;
                       n = digits_val (filter ascii_digit ip @ fd);
                       x' = x - int (length fd)
                   in Inr (if 0 \<le> x' then nearest_double neg (n * 10 ^ nat x') 1
                           else nearest_double neg n (10 ^ nat (- x')))))"

text \<open>
  \<open>int(f)\<close> for a float: the value cut towards zero; \<open>OverflowError\<close> for an infinity,
  \<open>ValueError\<close> for a NaN.
\<close>

definition int_of_float :: "pyfloat \<Rightarrow> exn + int" where
  "int_of_float f =
     (case f of
        Infinite \<Rightarrow> Inl OverflowError
      | NotANumber \<Rightarrow> Inl ValueError
      | Finite neg m p \<Rightarrow>
          Inr ((if neg then - 1 else 1) * (if 0 \<le> p then m * 2 ^ nat p else m div 2 ^ nat (- p))))"

text \<open>
  The polygon count of the record:
  \<open>int(num_polys) if num_polys and num_polys.isdigit() else (int(float(num_polys)) if
  num_polys else None)\<close>.
\<close>

definition polygon_count_of :: "string option \<Rightarrow> exn + int option" where
  "polygon_count_of num_polys =
     (case num_polys of
        None \<Rightarrow> Inr None
      | Some s \<Rightarrow>
          if s \<noteq> [] \<and> py_isdigit s then
            (case py_int s of Inl e \<Rightarrow> Inl e | Inr i \<Rightarrow> Inr (Some i))
          else if s \<noteq> [] then
            (case py_float s of
               Inl e \<Rightarrow> Inl e
             | Inr f \<Rightarrow> (case int_of_float f of Inl e \<Rightarrow> Inl e | Inr i \<Rightarrow> Inr (Some i)))
          else Inr None)"

text \<open>
  \<open>parse_date\<close>. \<open>strptime\<close> with \<open>%d\<close>, \<open>%m\<close> and \<open>%Y\<close> around one separator: the
  day is one or two digits (1 to 31, a leading zero or space allowed), the month one or two
  digits (1 to 12), the year four digits; the date must exist in the calendar, with a year
  from 1 on. A date is (year, month, day).
\<close>

type_synonym date = "nat \<times> nat \<times> nat"

definition day_text :: "string \<Rightarrow> bool" where
  "day_text s =
     (case s of
        [a] \<Rightarrow> ascii_digit a \<and> a \<noteq> CHR ''0''
      | [a, b] \<Rightarrow>
          (a = CHR ''3'' \<and> (b = CHR ''0'' \<or> b = CHR ''1'')) \<or>
          ((a = CHR ''1'' \<or> a = CHR ''2'') \<and> ascii_digit b) \<or>
          ((a = CHR ''0'' \<or> a = CHR '' '') \<and> ascii_digit b \<and> b \<noteq> CHR ''0'')
      | _ \<Rightarrow> False)"

definition month_text :: "string \<Rightarrow> bool" where
  "month_text s =
     (case s of
        [a] \<Rightarrow> ascii_digit a \<and> a \<noteq> CHR ''0''
      | [a, b] \<Rightarrow>
          (a = CHR ''1'' \<and> (b = CHR ''0'' \<or> b = CHR ''1'' \<or> b = CHR ''2'')) \<or>
          (a = CHR ''0'' \<and> ascii_digit b \<and> b \<noteq> CHR ''0'')
      | _ \<Rightarrow> False)"

definition leap_year :: "nat \<Rightarrow> bool" where
  "leap_year y = (y mod 4 = 0 \<and> (y mod 100 \<noteq> 0 \<or> y mod 400 = 0))"

definition days_in_month :: "nat \<Rightarrow> nat \<Rightarrow> nat" where
  "days_in_month y m =
     (if m = 2 then (if leap_year y then 29 else 28)
      else if m \<in> {4, 6, 9, 11} then 30 else 31)"

definition strptime_dmy :: "char \<Rightarrow> string \<Rightarrow> date option" where
  "strptime_dmy sep s =
     (let d = takeWhile (\<lambda>c. c \<noteq> sep) s;
          r = drop 1 (dropWhile (\<lambda>c. c \<noteq> sep) s);
          m = takeWhile (\<lambda>c. c \<noteq> sep) r;
          y = drop 1 (dropWhile (\<lambda>c. c \<noteq> sep) r)
      in
        if sep \<in> set s \<and> sep \<in> set r \<and> day_text d \<and> month_text m \<and>
           length y = 4 \<and> list_all ascii_digit y
        then
          let dd = nat (digits_val (filter ascii_digit d));
              mm = nat (digits_val m);
              yy = nat (digits_val y)
          in if 1 \<le> yy \<and> dd \<le> days_in_month yy mm then Some (yy, mm, dd) else None
        else None)"

definition parse_date :: "string \<Rightarrow> date option" where
  "parse_date date_str =
     (if date_str = [] then None
      else
        let s = py_strip date_str in
        (case strptime_dmy (CHR ''.'') s of
           Some d \<Rightarrow> Some d
         | None \<Rightarrow>
             (case strptime_dmy (CHR ''/'') s of
                Some d \<Rightarrow> Some d
              | None \<Rightarrow> strptime_dmy (CHR ''-'') s)))"

text \<open>
  \<open>str.upper()\<close>. Three characters of the modelled range have an upper case outside
  it or of two letters, so the result is a list of code points.
\<close>

definition upper_char :: "char \<Rightarrow> nat list" where
  "upper_char c =
     (let n = (of_char c :: nat) in
      if (97 \<le> n \<and> n \<le> 122) \<or> (224 \<le> n \<and> n \<le> 246) \<or> (248 \<le> n \<and> n \<le> 254) then [n - 32]
      else if n = 223 then [83, 83]
      else if n = 181 then [924]
      else if n = 255 then [376]
      else [n])"

definition py_upper :: "string \<Rightarrow> nat list" where
  "py_upper s = concat (map upper_char s)"

section \<open>The record\<close>

text \<open>The dictionary \<open>model_data\<close> that \<open>process_one_zip\<close> builds, field by field.\<close>

record model_data =
  model_name :: string
  format :: "nat list"
  source_url :: "string option"
  download_date :: "date option"
  created_by :: "string option"
  created_in :: "string option"
  uploaded_by :: "string option"
  model_description :: "string option"
  polygon_count :: "int option"
  preview_file :: "string option"

text \<open>\<open>x or y\<close> for an optional string \<open>x\<close>: \<open>x\<close> unless it is \<open>None\<close> or empty.\<close>

definition str_or :: "string option \<Rightarrow> string \<Rightarrow> string" where
  "str_or x y = (case x of Some s \<Rightarrow> if s \<noteq> [] then s else y | None \<Rightarrow> y)"

definition truthy :: "string option \<Rightarrow> bool" where
  "truthy x = (case x of Some s \<Rightarrow> s \<noteq> [] | None \<Rightarrow> False)"

definition build_model_data ::
  "pydict \<Rightarrow> path \<Rightarrow> path \<Rightarrow> string option \<Rightarrow> exn + model_data" where
  "build_model_data parsed target_dir geometry_path moved_preview_name =
     (case polygon_count_of (map_of parsed ''NumberOfPolygons'') of
        Inl e \<Rightarrow> Inl e
      | Inr pc \<Rightarrow>
          Inr \<lparr> model_name = path_name target_dir,
                format = py_upper (str_or (map_of parsed ''DownloadModelFormat'')
                           (dropWhile (\<lambda>c. c = CHR ''.'') (path_suffix geometry_path))),
                source_url = map_of parsed ''DownloadedFromURL'',
                download_date =
                  (case map_of parsed ''DateOfDownload'' of
                     Some d \<Rightarrow> if d \<noteq> [] then parse_date d else None
                   | None \<Rightarrow> None),
                created_by = map_of parsed ''CreatedBy'',
                created_in = map_of parsed ''CreatedIn'',
                uploaded_by = map_of parsed ''UploadedBy'',
                model_description = map_of parsed ''Description'',
                polygon_count = pc,
                preview_file = moved_preview_name \<rparr>)"

section \<open>process_one_zip\<close>

text \<open>\<open>dest_name.rsplit('.', 1)[0]\<close>: the text before the last dot, all of it without a dot.\<close>

definition rsplit_dot_head :: "string \<Rightarrow> string" where
  "rsplit_dot_head s =
     (if CHR ''.'' \<in> set s then rev (drop 1 (dropWhile (\<lambda>c. c \<noteq> CHR ''.'') (rev s))) else s)"

text \<open>
  The inner loop of the relocation, which looks for a destination that is free:
  \<open>while dest_path.exists(): dest_path = target_dir / f"{stem}_{k}{ext}"; k += 1\<close>.
  It ends for the reason the loop of \<open>ensure_unique_dir\<close> ends.
\<close>

function free_dest_loop :: "filesys \<Rightarrow> path \<Rightarrow> string \<Rightarrow> string \<Rightarrow> path \<Rightarrow> nat \<Rightarrow> path" where
  "free_dest_loop fs target_dir stem ext dest_path k =
     (if fs_exists fs dest_path
      then free_dest_loop fs target_dir stem ext
             (target_dir @ [stem @ ''_'' @ str_of_nat k @ ext]) (k + 1)
      else dest_path)"
  by pat_completeness auto
termination
proof (relation "measure (\<lambda>(fs, t, s, x, c, k).
          card {j. k \<le> j \<and> fs_exists fs (numbered t s x j)} + (if fs_exists fs c then 1 else 0))")
  show "wf (measure (\<lambda>(fs, t, s, x, c, k).
          card {j. k \<le> j \<and> fs_exists fs (numbered t s x j)} + (if fs_exists fs c then 1 else 0)))"
    by simp
next
  fix fs :: filesys and target_dir :: path and stem ext :: string and dest_path :: path and k :: nat
  assume e: "fs_exists fs dest_path"
  let ?E = "\<lambda>j. fs_exists fs (numbered target_dir stem ext j)"
  have c: "target_dir @ [stem @ ''_'' @ str_of_nat k @ ext] = numbered target_dir stem ext k"
    by (simp add: numbered_def)
  have "card {j. Suc k \<le> j \<and> ?E j} + (if ?E k then 1 else 0) \<le> card {j. k \<le> j \<and> ?E j}"
  proof (cases "?E k")
    case True
    then show ?thesis using numbered_card_less [of fs target_dir stem ext k] by simp
  next
    case False
    have "{j. Suc k \<le> j \<and> ?E j} = {j. k \<le> j \<and> ?E j}"
      using False by (auto simp: Suc_le_eq le_less)
    then show ?thesis using False by simp
  qed
  then have "card {j. Suc k \<le> j \<and> ?E j} + (if ?E k then 1 else 0)
      < card {j. k \<le> j \<and> ?E j} + (if fs_exists fs dest_path then 1 else 0)"
    using e by simp
  then show "((fs, target_dir, stem, ext, target_dir @ [stem @ ''_'' @ str_of_nat k @ ext], k + 1),
        (fs, target_dir, stem, ext, dest_path, k)) \<in> measure (\<lambda>(fs, t, s, x, c, k).
          card {j. k \<le> j \<and> fs_exists fs (numbered t s x j)} + (if fs_exists fs c then 1 else 0))"
    unfolding c by simp
qed

declare free_dest_loop.simps [simp del]

text \<open>
  The loop over the extracted files (the body of the \<open>try\<close> up to the sanity check).
  \<open>slugify\<close> of an empty stem is \<open>None\<close>, and \<open>None + str\<close> raises \<open>TypeError\<close>.
  Paths are compared as they are spelled, so \<open>src.resolve() == preview_path.resolve()\<close>
  is \<open>src = preview_path\<close>.
\<close>

fun move_files ::
  "path list \<Rightarrow> path \<Rightarrow> path \<Rightarrow> string option \<Rightarrow> filesys \<Rightarrow> (exn + string option) \<times> filesys" where
  "move_files [] target_dir preview_path moved_preview_name fs = (Inr moved_preview_name, fs)"
| "move_files (src # rest) target_dir preview_path moved_preview_name fs =
     (case slugify (path_stem src) of
        None \<Rightarrow> (Inl TypeError, fs)
      | Some slug \<Rightarrow>
          let dest_name = slug @ py_lower (path_suffix src);
              dest_path = free_dest_loop fs target_dir (rsplit_dot_head dest_name)
                            (py_lower (path_suffix src)) (target_dir @ [dest_name]) 1
          in
            (case shutil_move fs src dest_path of
               Inl e \<Rightarrow> (Inl e, fs)
             | Inr fs' \<Rightarrow>
                 move_files rest target_dir preview_path
                   (if src = preview_path \<or> path_name src = path_name preview_path
                    then Some (path_name dest_path) else moved_preview_name)
                   fs'))"

text \<open>The body of the \<open>try\<close>: the moves, the sanity check, the record.\<close>

definition relocate_body ::
  "path list \<Rightarrow> path \<Rightarrow> path \<Rightarrow> path \<Rightarrow> pydict \<Rightarrow> filesys \<Rightarrow>
   (exn + path \<times> model_data) \<times> filesys" where
  "relocate_body extracted_files target_dir preview_path geometry_path parsed fs =
     (case move_files extracted_files target_dir preview_path None fs of
        (Inl e, fs1) \<Rightarrow> (Inl e, fs1)
      | (Inr moved_preview_name, fs1) \<Rightarrow>
          if \<not> truthy moved_preview_name then
            (Inl (RuntimeError ''Failed to detect preview file after moving files.''), fs1)
          else
            (case build_model_data parsed target_dir geometry_path moved_preview_name of
               Inl e \<Rightarrow> (Inl e, fs1)
             | Inr model_data \<Rightarrow> (Inr (target_dir, model_data), fs1)))"

text \<open>
  The \<open>try\<close> with its \<open>except\<close>: on any exception the target directory is removed if
  it exists (an error of the removal is swallowed) and the exception is raised again.
\<close>

definition remove_if_exists :: "filesys \<Rightarrow> path \<Rightarrow> filesys" where
  "remove_if_exists fs target_dir =
     (if fs_exists fs target_dir
      then (case shutil_rmtree fs target_dir of Inr fs' \<Rightarrow> fs' | Inl e \<Rightarrow> fs)
      else fs)"

definition relocate ::
  "path list \<Rightarrow> path \<Rightarrow> path \<Rightarrow> path \<Rightarrow> pydict \<Rightarrow> filesys \<Rightarrow>
   (exn + path \<times> model_data) \<times> filesys" where
  "relocate extracted_files target_dir preview_path geometry_path parsed fs =
     (case relocate_body extracted_files target_dir preview_path geometry_path parsed fs of
        (Inr v, fs1) \<Rightarrow> (Inr v, fs1)
      | (Inl e, fs1) \<Rightarrow> (Inl e, remove_if_exists fs1 target_dir))"

text \<open>The name of the model directory: the stem of the geometry hint or of the archive.\<close>

definition model_base_of :: "string option \<Rightarrow> string option \<Rightarrow> path \<Rightarrow> string" where
  "model_base_of geom_file_name description zip_path =
     (let model_base =
            (case geom_file_name of
               Some g \<Rightarrow> if g \<noteq> [] then path_stem (path_of_str g) else path_stem zip_path
             | None \<Rightarrow> path_stem zip_path)
      in if model_base = [] \<or> py_strip model_base = []
         then str_or description (path_stem zip_path)
         else model_base)"

text \<open>
  \<open>process_one_zip\<close> from the list of extracted files on, in the workspace
  \<open>tmpdir\<close>. \<open>Path(base) / None\<close>, for a slug that is \<open>None\<close>, raises \<open>TypeError\<close>.
\<close>

definition process_extracted ::
  "path \<Rightarrow> path \<Rightarrow> path \<Rightarrow> filesys \<Rightarrow> (exn + path \<times> model_data) \<times> filesys" where
  "process_extracted zip_path final_base_dir tmpdir fs =
     (let extracted_files = rglob_files fs tmpdir in
      if extracted_files = [] then
        (Inl (RuntimeError (''No files found in zip '' @ path_str zip_path)), fs)
      else
      (case select_metadata extracted_files zip_path of
         Inl e \<Rightarrow> (Inl e, fs)
       | Inr metadata_file \<Rightarrow>
      (case try_open fs metadata_file of
         Inl e \<Rightarrow> (Inl e, fs)
       | Inr content \<Rightarrow>
      (case parse_metadata_from_text content of
         Inl e \<Rightarrow> (Inl e, fs)
       | Inr parsed \<Rightarrow>
      (case resolve_geometry extracted_files (map_of parsed ''GeometryFile'') zip_path of
         Inl e \<Rightarrow> (Inl e, fs)
       | Inr geometry_path \<Rightarrow>
      (case resolve_preview extracted_files (map_of parsed ''PreviewFile'') zip_path of
         Inl e \<Rightarrow> (Inl e, fs)
       | Inr preview_path \<Rightarrow>
      (case slugify (model_base_of (map_of parsed ''GeometryFile'')
                       (map_of parsed ''Description'') zip_path) of
         None \<Rightarrow> (Inl TypeError, fs)
       | Some model_name_safe \<Rightarrow>
           let target_dir = ensure_unique_dir fs final_base_dir model_name_safe in
           (case path_mkdir True False fs target_dir of
              Inl e \<Rightarrow> (Inl e, fs)
            | Inr fs1 \<Rightarrow>
                relocate extracted_files target_dir preview_path geometry_path parsed fs1))))))))"

text \<open>
  Opening the archive and extracting it, inside \<open>try: ... except zipfile.BadZipFile\<close>.
  \<open>BadZipFile\<close>, from the opening or from the extraction of a member, becomes the
  \<open>RuntimeError\<close> of the source; every other exception passes as it is.
\<close>

definition extract_zip :: "filesys \<Rightarrow> path \<Rightarrow> path \<Rightarrow> (exn + unit) \<times> filesys" where
  "extract_zip fs zip_path tmpdir =
     (case node_at fs zip_path of
        None \<Rightarrow> (Inl FileNotFoundError, fs)
      | Some Dir \<Rightarrow> (Inl IsADirectoryError, fs)
      | Some (File d) \<Rightarrow>
          (case archive d of
             None \<Rightarrow> (Inl (RuntimeError (''Bad zip file: '' @ path_str zip_path)), fs)
           | Some members \<Rightarrow>
               (case extractall fs tmpdir members of
                  (Inl e, fs1) \<Rightarrow>
                    (Inl (if e = BadZipFile
                          then RuntimeError (''Bad zip file: '' @ path_str zip_path) else e), fs1)
                | (Inr u, fs1) \<Rightarrow> (Inr u, fs1))))"

text \<open>
  \<open>process_one_zip\<close>. \<open>tmpname\<close> is the name \<open>TemporaryDirectory\<close> settles on for the
  workspace under \<open>tmp_base\<close>: it draws random names until \<open>os.mkdir\<close> succeeds, so the
  name is one that does not exist (given one that exists, the model raises the
  \<open>FileExistsError\<close> with which \<open>mkdtemp\<close> gives up). Leaving the \<open>with\<close> block
  removes the workspace, on every path.
\<close>

definition process_one_zip ::
  "string \<Rightarrow> path \<Rightarrow> path \<Rightarrow> path \<Rightarrow> filesys \<Rightarrow> (exn + path \<times> model_data) \<times> filesys" where
  "process_one_zip tmpname zip_path final_base_dir tmp_base fs =
     (let tmpdir = tmp_base @ [tmpname] in
      case os_mkdir fs tmpdir of
        Inl e \<Rightarrow> (Inl e, fs)
      | Inr fs1 \<Rightarrow>
          (case (case extract_zip fs1 zip_path tmpdir of
                   (Inl e, fs2) \<Rightarrow> (Inl e, fs2)
                 | (Inr u, fs2) \<Rightarrow> process_extracted zip_path final_base_dir tmpdir fs2) of
             (r, fs3) \<Rightarrow> (r, remove_tree fs3 tmpdir)))"

section \<open>The database\<close>

text \<open>
  \<open>insert_model\<close>: the check of the required fields, then the \<open>INSERT\<close>. The table is
  the list of its rows. The statement fails on a string with a NUL character, on a value
  that does not fit its column and on a name that is taken, and then no row is added. A
  string fits a \<open>VARCHAR(n)\<close> column when what it has beyond \<open>n\<close> characters is spaces
  only, and it is stored cut to \<open>n\<close> characters; the name that must be new is the stored
  one. The identifier the statement returns is only written to the log. Failures to reach
  the server are outside the model.
\<close>

type_synonym database = "model_data list"

definition varchar_ok :: "'a \<Rightarrow> nat \<Rightarrow> 'a list \<Rightarrow> bool" where
  "varchar_ok space n s = list_all (\<lambda>c. c = space) (drop n s)"

definition opt_len_ok :: "nat \<Rightarrow> string option \<Rightarrow> bool" where
  "opt_len_ok n x = (case x of Some s \<Rightarrow> varchar_ok (CHR '' '') n s | None \<Rightarrow> True)"

definition opt_nul_free :: "string option \<Rightarrow> bool" where
  "opt_nul_free x = (case x of Some s \<Rightarrow> CHR 0x00 \<notin> set s | None \<Rightarrow> True)"

definition stored_row :: "model_data \<Rightarrow> model_data" where
  "stored_row md =
     md\<lparr>model_name := take 255 (model_name md),
        format := take 50 (format md),
        source_url := map_option (take 255) (source_url md),
        created_by := map_option (take 255) (created_by md),
        created_in := map_option (take 100) (created_in md),
        uploaded_by := map_option (take 255) (uploaded_by md),
        preview_file := map_option (take 255) (preview_file md)\<rparr>"

definition insert_model :: "model_data \<Rightarrow> database \<Rightarrow> exn + database" where
  "insert_model md db =
     (if model_name md = [] \<or> \<not> truthy (preview_file md) then Inl ValueError
      else if CHR 0x00 \<in> set (model_name md) \<or> 0 \<in> set (format md) \<or>
              \<not> (opt_nul_free (source_url md) \<and> opt_nul_free (created_by md) \<and>
                 opt_nul_free (created_in md) \<and> opt_nul_free (uploaded_by md) \<and>
                 opt_nul_free (model_description md) \<and> opt_nul_free (preview_file md))
      then Inl ValueError
      else if \<not> (varchar_ok (CHR '' '') 255 (model_name md) \<and> varchar_ok 32 50 (format md) \<and>
                 opt_len_ok 255 (source_url md) \<and> opt_len_ok 255 (created_by md) \<and>
                 opt_len_ok 100 (created_in md) \<and> opt_len_ok 255 (uploaded_by md) \<and>
                 opt_len_ok 255 (preview_file md) \<and>
                 (case polygon_count md of
                    Some n \<Rightarrow> - (2 ^ 31) \<le> n \<and> n < 2 ^ 31
                  | None \<Rightarrow> True))
      then Inl DataError
      else if model_name (stored_row md) \<in> model_name ` set db then Inl UniqueViolation
      else Inr (db @ [stored_row md]))"

section \<open>process_all_zips\<close>

text \<open>
  The state of a run: the filesystem and the table. The calls of \<open>logging\<close> write to
  the log and do nothing else; the log is not part of the state.
\<close>

record state =
  st_fs :: filesys
  st_db :: database

text \<open>\<open>f.lower().endswith(".zip")\<close>.\<close>

definition endswith :: "string \<Rightarrow> string \<Rightarrow> bool" where
  "endswith s suf = (length suf \<le> length s \<and> drop (length s - length suf) s = suf)"

text \<open>
  The archives of a run: \<open>os.walk(input_dir)\<close> goes through the directory and all the
  directories below it, and every file whose lower-cased name ends in \<open>.zip\<close> is taken.
  A path that is no directory has nothing to walk.
\<close>

definition discover :: "filesys \<Rightarrow> path \<Rightarrow> path list" where
  "discover fs input_dir =
     (if fs_is_dir fs input_dir
      then map fst (filter (\<lambda>(p, n). strict_prefix input_dir p \<and> is_file_node n \<and>
                                       endswith (py_lower (path_name p)) ''.zip'') fs)
      else [])"

text \<open>
  The end of the \<open>try\<close> of the loop, after a successful insert: the archive goes to
  \<open>_processed\<close>. An exception here is caught by the \<open>except\<close> of the loop.
\<close>

definition route_processed :: "path \<Rightarrow> path \<Rightarrow> filesys \<Rightarrow> (exn + unit) \<times> filesys" where
  "route_processed input_dir zp fs =
     (let processed_dir = input_dir @ [''_processed''] in
      case path_mkdir False True fs processed_dir of
        Inl e \<Rightarrow> (Inl e, fs)
      | Inr fs1 \<Rightarrow>
          (case shutil_move fs1 zp (processed_dir @ [path_name zp]) of
             Inl e \<Rightarrow> (Inl e, fs1)
           | Inr fs2 \<Rightarrow> (Inr (), fs2)))"

text \<open>
  The \<open>except\<close> of the loop: the archive goes to \<open>_failed\<close>. The \<open>mkdir\<close> stands
  outside the inner \<open>try\<close>, so its exception leaves the loop and \<open>process_all_zips\<close>;
  an exception of the move is caught and logged.
\<close>

definition route_failed :: "path \<Rightarrow> path \<Rightarrow> filesys \<Rightarrow> exn + filesys" where
  "route_failed input_dir zp fs =
     (let failed_dir = input_dir @ [''_failed''] in
      case path_mkdir False True fs failed_dir of
        Inl e \<Rightarrow> Inl e
      | Inr fs1 \<Rightarrow>
          (case shutil_move fs1 zp (failed_dir @ [path_name zp]) of
             Inl mv_exc \<Rightarrow> Inr fs1
           | Inr fs2 \<Rightarrow> Inr fs2))"

text \<open>
  One turn of the loop \<open>for zp in zip_paths\<close>. \<open>Inl\<close> is an exception that leaves the
  loop; \<open>Inr\<close> is the state with which the loop goes on to the next archive.
\<close>

definition process_zip_step ::
  "string \<Rightarrow> path \<Rightarrow> path \<Rightarrow> path \<Rightarrow> path \<Rightarrow> state \<Rightarrow> exn + state" where
  "process_zip_step tmpname input_dir final_base_dir tmp_base zp s =
     (case process_one_zip tmpname zp final_base_dir tmp_base (st_fs s) of
        (Inl exc, fs1) \<Rightarrow>
          (case route_failed input_dir zp fs1 of
             Inl e \<Rightarrow> Inl e
           | Inr fs2 \<Rightarrow> Inr (s\<lparr>st_fs := fs2\<rparr>))
      | (Inr (target_dir, model_data), fs1) \<Rightarrow>
          (case insert_model model_data (st_db s) of
             Inl db_exc \<Rightarrow> Inr (s\<lparr>st_fs := remove_if_exists fs1 target_dir\<rparr>)
           | Inr db' \<Rightarrow>
               (case route_processed input_dir zp fs1 of
                  (Inr u, fs2) \<Rightarrow> Inr \<lparr>st_fs = fs2, st_db = db'\<rparr>
                | (Inl exc, fs2) \<Rightarrow>
                    (case route_failed input_dir zp fs2 of
                       Inl e \<Rightarrow> Inl e
                     | Inr fs3 \<Rightarrow> Inr \<lparr>st_fs = fs3, st_db = db'\<rparr>))))"

text \<open>
  The loop. \<open>tmpnames i\<close> is the name of the workspace of the \<open>i\<close>-th archive of the
  run.
\<close>

fun process_loop ::
  "(nat \<Rightarrow> string) \<Rightarrow> nat \<Rightarrow> path \<Rightarrow> path \<Rightarrow> path \<Rightarrow> path list \<Rightarrow> state \<Rightarrow> exn + state" where
  "process_loop tmpnames i input_dir final_base_dir tmp_base [] s = Inr s"
| "process_loop tmpnames i input_dir final_base_dir tmp_base (zp # zip_paths) s =
     (case process_zip_step (tmpnames i) input_dir final_base_dir tmp_base zp s of
        Inl e \<Rightarrow> Inl e
      | Inr s' \<Rightarrow> process_loop tmpnames (i + 1) input_dir final_base_dir tmp_base zip_paths s')"

text \<open>
  \<open>process_all_zips\<close>. \<open>init_database\<close> only makes sure that the tables exist; the two
  directories are made; the archives are collected and processed.
\<close>

definition process_all_zips ::
  "(nat \<Rightarrow> string) \<Rightarrow> path \<Rightarrow> path \<Rightarrow> path \<Rightarrow> state \<Rightarrow> exn + state" where
  "process_all_zips tmpnames input_dir final_base_dir tmp_base s =
     (case path_mkdir True True (st_fs s) final_base_dir of
        Inl e \<Rightarrow> Inl e
      | Inr fs1 \<Rightarrow>
          (case path_mkdir True True fs1 tmp_base of
             Inl e \<Rightarrow> Inl e
           | Inr fs2 \<Rightarrow>
               process_loop tmpnames 0 input_dir final_base_dir tmp_base
                 (discover fs2 input_dir) (s\<lparr>st_fs := fs2\<rparr>)))"

text \<open>Words for the properties of the preview resolution.\<close>

definition jpeg_file :: "path \<Rightarrow> bool" where
  "jpeg_file f = (py_lower (path_suffix f) \<in> {''.jpg'', ''.jpeg''})"

definition png_file :: "path \<Rightarrow> bool" where
  "png_file f = (py_lower (path_suffix f) = ''.png'')"

definition hint_matches :: "path list \<Rightarrow> string option \<Rightarrow> bool" where
  "hint_matches files hint =
     (case hint of Some h \<Rightarrow> h \<noteq> [] \<and> list_ex (\<lambda>f. path_name f = h) files | None \<Rightarrow> False)"

section \<open>Words for the properties of the filesystem\<close>

text \<open>
  \<open>agree P fs fs'\<close>: the two filesystems have the same entry at every path with \<open>P\<close>.
  \<open>wf_fs fs\<close>: a filesystem as a walk lists it, with one entry for a path and every
  entry in a directory. \<open>made_dirs fs fs' p\<close>: what a successful \<open>mkdir\<close> of \<open>p\<close>
  does, which is to add directories on the way to \<open>p\<close> and to change nothing that exists.
\<close>

definition agree :: "(path \<Rightarrow> bool) \<Rightarrow> filesys \<Rightarrow> filesys \<Rightarrow> bool" where
  "agree P fs fs' = (\<forall>q. P q \<longrightarrow> node_at fs' q = node_at fs q)"

definition wf_fs :: "filesys \<Rightarrow> bool" where
  "wf_fs fs =
     (distinct (map fst fs) \<and>
      list_all (\<lambda>(p, n). p \<noteq> [] \<and> fs_is_dir fs (butlast p)) fs)"

definition made_dirs :: "filesys \<Rightarrow> filesys \<Rightarrow> path \<Rightarrow> bool" where
  "made_dirs fs fs' p =
     (fs_is_dir fs' p \<and> agree (fs_exists fs) fs fs' \<and>
      (\<forall>q. \<not> fs_exists fs q \<longrightarrow> node_at fs' q = None \<or> (node_at fs' q = Some Dir \<and> prefix q p)))"

text \<open>
  \<open>closed_fs fs\<close>: every entry is in a directory (what \<open>wf_fs\<close> says, in terms of
  \<open>node_at\<close>).
\<close>

definition closed_fs :: "filesys \<Rightarrow> bool" where
  "closed_fs fs = (\<forall>q. q \<noteq> [] \<longrightarrow> fs_exists fs q \<longrightarrow> fs_is_dir fs (butlast q))"

text \<open>
  \<open>moved_ok t target fs fs'\<close>: what the moves of a relocation from the workspace
  \<open>t\<close> into \<open>target\<close> keep: entries in directories, the target directory, and every
  entry outside the two.
\<close>

definition moved_ok :: "path \<Rightarrow> path \<Rightarrow> filesys \<Rightarrow> filesys \<Rightarrow> bool" where
  "moved_ok t target fs fs' =
     (closed_fs fs' \<and> fs_is_dir fs' target \<and>
      agree (\<lambda>q. \<not> prefix t q \<and> \<not> prefix target q) fs fs')"

text \<open>
  Words for the properties of archives that fail. \<open>corrupt d\<close>: the file is no zip
  archive, or one of its members is damaged. \<open>unzip_error fs tmpdir d\<close>: the exception
  that \<open>zipfile\<close> raises when the file is opened and extracted into \<open>tmpdir\<close>, if it
  raises one.
\<close>

definition damaged :: "member \<Rightarrow> bool" where
  "damaged m = (case m of Intact d \<Rightarrow> False | Unopenable k \<Rightarrow> True | Broken k d \<Rightarrow> True)"

definition corrupt :: "fdata \<Rightarrow> bool" where
  "corrupt d = (case archive d of None \<Rightarrow> True | Some ms \<Rightarrow> list_ex (\<lambda>m. damaged (snd m)) ms)"

definition unzip_error :: "filesys \<Rightarrow> path \<Rightarrow> fdata \<Rightarrow> exn option" where
  "unzip_error fs tmpdir d =
     (case archive d of
        None \<Rightarrow> Some BadZipFile
      | Some ms \<Rightarrow> (case fst (extractall fs tmpdir ms) of Inl e \<Rightarrow> Some e | Inr u \<Rightarrow> None))"

section \<open>Properties of slugify\<close>

lemma slug_char_model: "\<forall>c\<in>set ''model''. slug_char c"
  by (simp add: slug_char_def ascii_alnum_def)

lemma slugify_Some:
  assumes "name \<noteq> []"
  shows "\<exists>t. slugify name = Some t \<and> t \<noteq> [] \<and> length t \<le> 150 \<and> (\<forall>c\<in>set t. slug_char c)"
proof -
  define u where "u = filter slug_char
     (map (\<lambda>c. if c = CHR '' '' then CHR ''_'' else c) (sub_ext (py_strip name)))"
  define v where "v = (if u = [] then ''model'' else u)"
  have eq: "slugify name = Some (take 150 v)"
    using assms by (simp add: slugify_def u_def v_def Let_def)
  have ne: "v \<noteq> []" by (simp add: v_def)
  have cs: "\<forall>c\<in>set v. slug_char c"
    using slug_char_model by (auto simp: v_def u_def)
  have "take 150 v \<noteq> []" using ne by (cases v) simp_all
  moreover have "length (take 150 v) \<le> 150" by simp
  moreover have "\<forall>c\<in>set (take 150 v). slug_char c"
    using cs by (meson in_set_takeD)
  ultimately show ?thesis using eq by blast
qed

lemma set_py_strip: "set (py_strip s) \<subseteq> set s"
  unfolding py_strip_def by (metis set_dropWhileD set_rev subsetI)

lemma set_drop_ext: "drop_ext s = Some p \<Longrightarrow> set p \<subseteq> set s"
  unfolding drop_ext_def Let_def
  by (auto split: if_splits dest!: list.set_sel(2)[rotated] set_dropWhileD)

lemma set_sub_ext: "set (sub_ext s) \<subseteq> set s"
proof (cases "drop_ext s")
  case (Some p)
  then show ?thesis using set_drop_ext[OF Some] by (simp add: sub_ext_def)
next
  case None
  show ?thesis
  proof (cases "s \<noteq> [] \<and> last s = LF")
    case False
    then show ?thesis using None by (auto simp: sub_ext_def)
  next
    case True
    show ?thesis
    proof (cases "drop_ext (butlast s)")
      case None2: None
      then show ?thesis using None True by (simp add: sub_ext_def)
    next
      case (Some p)
      have "set p \<subseteq> set (butlast s)" using set_drop_ext[OF Some] .
      then have "set p \<subseteq> set s" by (meson in_set_butlastD subset_iff)
      moreover have "LF \<in> set s" using True last_in_set by metis
      ultimately show ?thesis using None True Some by (simp add: sub_ext_def)
    qed
  qed
qed

lemma slugify_all_invalid:
  assumes "name \<noteq> []" and "\<forall>c\<in>set name. \<not> slug_char c \<and> c \<noteq> CHR '' ''"
  shows "slugify name = Some ''model''"
proof -
  have sub: "set (sub_ext (py_strip name)) \<subseteq> set name"
    using set_sub_ext set_py_strip by blast
  have "filter slug_char
     (map (\<lambda>c. if c = CHR '' '' then CHR ''_'' else c) (sub_ext (py_strip name))) = []"
    using sub assms(2) by (auto simp: filter_empty_conv)
  then show ?thesis using assms(1) by (simp add: slugify_def Let_def)
qed

text \<open>
  C5, as the code has it. \<open>slugify\<close> of a non-empty name is a non-empty string of at
  most 150 characters, all of them in \<open>[A-Za-z0-9_-]\<close>; and a non-empty name with no
  character of that class and no space gives the literal \<open>model\<close>. (The empty name
  gives \<open>None\<close>, and a space counts as kept: it becomes an underscore.)
\<close>

theorem slugify_safe:
  "name \<noteq> [] \<Longrightarrow>
   \<exists>t. slugify name = Some t \<and> t \<noteq> [] \<and> length t \<le> 150 \<and> (\<forall>c\<in>set t. slug_char c) \<and>
       ((\<forall>c\<in>set name. \<not> slug_char c \<and> c \<noteq> CHR '' '') \<longrightarrow> t = ''model'')"
proof -
  assume ne: "name \<noteq> []"
  from slugify_Some [OF ne] obtain t where t: "slugify name = Some t" "t \<noteq> []"
     "length t \<le> 150" "\<forall>c\<in>set t. slug_char c" by blast
  have "(\<forall>c\<in>set name. \<not> slug_char c \<and> c \<noteq> CHR '' '') \<longrightarrow> t = ''model''"
    using slugify_all_invalid [OF ne] t(1) by simp
  with t show ?thesis by blast
qed


theorem slugify_safe_witness:
  "''My Model.obj'' \<noteq> [] \<and> slugify ''My Model.obj'' = Some ''My_Model'' \<and>
   slugify ''!?.'' = Some ''model''"
proof -
  have a: "slugify ''My Model.obj'' = Some ''My_Model''" by code_simp
  have b: "\<forall>c\<in>set ''!?.''. \<not> slug_char c \<and> c \<noteq> CHR '' ''"
    by (simp add: slug_char_def ascii_alnum_def)
  have ne: "''!?.'' \<noteq> []" by simp
  from slugify_safe [OF ne] obtain t where "slugify ''!?.'' = Some t"
    and "(\<forall>c\<in>set ''!?.''. \<not> slug_char c \<and> c \<noteq> CHR '' '') \<longrightarrow> t = ''model''" by blast
  with b have "slugify ''!?.'' = Some ''model''" by blast
  then show ?thesis using a by simp
qed

text \<open>
  The claim as written fails at the empty string, where the source returns \<open>None\<close>
  and no string; and a name of invalid characters that holds a space keeps an underscore.
\<close>

theorem slugify_empty_counterexample:
  "slugify [] = None \<and> slugify ''. .'' = Some ''_''"
proof -
  have "slugify ''. .'' = Some ''_''" by code_simp
  then show ?thesis by (simp add: slugify_def)
qed

section \<open>Properties of parse_metadata_from_text\<close>

lemma last_dropWhile_ne: "dropWhile P xs \<noteq> [] \<Longrightarrow> last (dropWhile P xs) = last xs"
  by (metis last_appendR takeWhile_dropWhile_id)

lemma py_strip_stripped: "stripped (py_strip s)"
proof -
  define t where "t = dropWhile isspace s"
  define u where "u = dropWhile isspace (rev t)"
  have r: "py_strip s = rev u" by (simp add: py_strip_def t_def u_def)
  show ?thesis
  proof (cases "u = []")
    case True
    then show ?thesis by (simp add: r stripped_def)
  next
    case False
    then have a: "\<not> isspace (hd u)" unfolding u_def by (rule hd_dropWhile)
    have "last u = last (rev t)" using False unfolding u_def by (rule last_dropWhile_ne)
    moreover have tne: "t \<noteq> []" using False by (auto simp: u_def)
    ultimately have "last u = hd t" by (simp add: last_rev)
    moreover have "\<not> isspace (hd t)" using tne unfolding t_def by (rule hd_dropWhile)
    ultimately have b: "\<not> isspace (last u)" by simp
    show ?thesis using False a b by (simp add: r stripped_def hd_rev last_rev)
  qed
qed

lemma dropWhile_id: "xs = [] \<or> \<not> P (hd xs) \<Longrightarrow> dropWhile P xs = xs"
  by (cases xs) auto

lemma py_strip_id: "stripped s \<Longrightarrow> py_strip s = s"
  unfolding stripped_def py_strip_def
  by (cases "s = []") (simp_all add: dropWhile_id hd_rev)

lemma py_strip_space_Cons: "stripped v \<Longrightarrow> py_strip (CHR '' '' # v) = v"
proof -
  assume v: "stripped v"
  have "isspace (CHR '' '')" by (simp add: isspace_def)
  then have "py_strip (CHR '' '' # v) = py_strip v" by (simp add: py_strip_def)
  then show ?thesis using py_strip_id [OF v] by simp
qed

lemma py_strip_Nil: "py_strip [] = []"
  by (simp add: py_strip_def)

lemma not_space_hash: "\<not> isspace (CHR ''#'')" by (simp add: isspace_def)
lemma not_space_colon: "\<not> isspace (CHR '':'')" by (simp add: isspace_def)
lemma space_space: "isspace (CHR '' '')" by (simp add: isspace_def)

lemma py_strip_spec_line:
  assumes "stripped v"
  shows "py_strip (spec_line (k, v)) = CHR ''#'' # k @ CHR '':'' # (if v = [] then [] else CHR '' '' # v)"
proof (cases "v = []")
  case True
  then show ?thesis
    by (simp add: spec_line_def py_strip_def not_space_hash not_space_colon space_space)
next
  case False
  then have "\<not> isspace (last v)" using assms by (simp add: stripped_def)
  then have "dropWhile isspace (rev v @ CHR '' '' # CHR '':'' # rev k @ ''#'') =
     rev v @ CHR '' '' # CHR '':'' # rev k @ ''#''"
    using False by (intro dropWhile_id) (simp add: hd_append hd_rev)
  then show ?thesis using False
    by (simp add: spec_line_def py_strip_def not_space_hash)
qed


subsection \<open>splitlines, one step at a time\<close>

lemma splitlines_break_last: "is_linebreak c \<Longrightarrow> splitlines [c] = [[]]"
  by simp

lemma splitlines_CRLF: "splitlines (CR # LF # ds) = [] # splitlines ds"
  by (simp add: is_linebreak_def CR_def)

lemma splitlines_break:
  "is_linebreak c \<Longrightarrow> \<not> (c = CR \<and> d = LF) \<Longrightarrow> splitlines (c # d # ds) = [] # splitlines (d # ds)"
  using splitlines.simps(2) [of c "d # ds"] by (cases "c = CR"; simp del: splitlines.simps)

lemma splitlines_plain:
  "\<not> is_linebreak c \<Longrightarrow>
   splitlines (c # cs) = (case splitlines cs of [] \<Rightarrow> [[c]] | l # ls \<Rightarrow> (c # l) # ls)"
  by simp

declare splitlines.simps(2) [simp del]
declare parse_metadata_lines.simps(2) [simp del]

subsection \<open>The parser and the specification's reading\<close>

lemma parse_step_skip:
  "\<not> spec_qualifies raw \<Longrightarrow>
   parse_metadata_lines (raw # rest) data = parse_metadata_lines rest data"
  by (auto simp: spec_qualifies_def Let_def parse_metadata_lines.simps(2))

lemma parse_step_take:
  assumes "spec_qualifies raw"
  shows "parse_metadata_lines (raw # rest) data =
     parse_metadata_lines rest (AList.update (spec_key raw) (spec_value raw) data)"
proof -
  define l where "l = py_strip raw"
  have l: "l \<noteq> []" "hd l = CHR ''#''" "CHR '':'' \<in> set l"
    using assms by (simp_all add: spec_qualifies_def l_def Let_def)
  then have "CHR '':'' \<in> set (tl l)" by (cases l) auto
  then have sp: "split_first (CHR '':'') (tl l) =
     [takeWhile (\<lambda>x. x \<noteq> CHR '':'') (tl l), tl (dropWhile (\<lambda>x. x \<noteq> CHR '':'') (tl l))]"
    by (simp add: split_first_def)
  have e: "parse_metadata_lines (raw # rest) data =
     (case split_first (CHR '':'') (tl l) of
           [key, val] \<Rightarrow>
             parse_metadata_lines rest (AList.update (py_strip key) (py_strip val) data)
         | _ \<Rightarrow> Inl ValueError)"
    using l by (simp add: l_def [symmetric] Let_def parse_metadata_lines.simps(2))
  show ?thesis unfolding e sp
    by (simp add: spec_key_def spec_value_def l_def)
qed

lemma parse_lines_total:
  "\<exists>d. parse_metadata_lines ls data = Inr d \<and>
       map_of d = map_of data ++ map_of (rev (map line_entry (filter spec_qualifies ls)))"
proof (induction ls arbitrary: data)
  case Nil
  then show ?case by simp
next
  case (Cons raw rest)
  show ?case
  proof (cases "spec_qualifies raw")
    case False
    then show ?thesis using Cons.IH [of data] by (simp add: parse_step_skip)
  next
    case True
    define data' where "data' = AList.update (spec_key raw) (spec_value raw) data"
    from Cons.IH [of data'] obtain d where d: "parse_metadata_lines rest data' = Inr d"
      "map_of d = map_of data' ++ map_of (rev (map line_entry (filter spec_qualifies rest)))"
      by blast
    have m: "map_of data' = map_of data ++ map_of [line_entry raw]"
      by (simp add: data'_def update_conv' line_entry_def)
    have "parse_metadata_lines (raw # rest) data = Inr d"
      using True d(1) by (simp add: parse_step_take data'_def)
    moreover have "map_of d = map_of data ++
        map_of (rev (map line_entry (filter spec_qualifies (raw # rest))))"
      using True by (simp add: d(2) m del: map_of.simps)
    ultimately show ?thesis by blast
  qed
qed

lemma parse_lines_distinct:
  "parse_metadata_lines ls data = Inr d \<Longrightarrow> distinct (map fst data) \<Longrightarrow> distinct (map fst d)"
proof (induction ls arbitrary: data)
  case Nil
  then show ?case by simp
next
  case (Cons raw rest)
  show ?case
  proof (cases "spec_qualifies raw")
    case False
    then show ?thesis using Cons by (simp add: parse_step_skip)
  next
    case True
    then show ?thesis using Cons.prems Cons.IH [of "AList.update (spec_key raw) (spec_value raw) data"]
      by (simp add: parse_step_take distinct_update)
  qed
qed


subsection \<open>Entries the parser produces\<close>

lemma splitlines_no_break:
  "l \<in> set (splitlines s) \<Longrightarrow> c \<in> set l \<Longrightarrow> \<not> is_linebreak c"
proof (induction "length s" arbitrary: s l rule: less_induct)
  case less
  show ?case
  proof (cases s)
    case Nil
    then show ?thesis using less.prems by simp
  next
    case (Cons x xs)
    show ?thesis
    proof (cases "is_linebreak x")
      case True
      show ?thesis
      proof (cases xs)
        case Nil
        then show ?thesis using less.prems Cons True by (simp add: splitlines_break_last)
      next
        case (Cons d ds)
        have "splitlines s = [] # splitlines ds \<or> splitlines s = [] # splitlines xs"
          using splitlines_CRLF [of ds] splitlines_break [OF True, of d ds] \<open>s = x # xs\<close> Cons
          by blast
        then have "l = [] \<or> l \<in> set (splitlines ds) \<or> l \<in> set (splitlines xs)"
          using less.prems(1) by auto
        moreover have "length ds < length s" "length xs < length s"
          using \<open>s = x # xs\<close> Cons by simp_all
        ultimately show ?thesis using less.hyps less.prems(2) by auto
      qed
    next
      case False
      show ?thesis
      proof (cases "splitlines xs")
        case Nil
        then show ?thesis using less.prems Cons False by (auto simp: splitlines_plain)
      next
        case (Cons l0 ls)
        have len: "length xs < length s" using \<open>s = x # xs\<close> by simp
        have "l = x # l0 \<or> l \<in> set ls"
          using less.prems(1) \<open>s = x # xs\<close> False Cons by (auto simp: splitlines_plain)
        then show ?thesis
        proof
          assume "l = x # l0"
          moreover have "l0 \<in> set (splitlines xs)" using Cons by simp
          ultimately show ?thesis using less.hyps [OF len] less.prems(2) False by auto
        next
          assume "l \<in> set ls"
          then have "l \<in> set (splitlines xs)" using Cons by simp
          then show ?thesis using less.hyps [OF len] less.prems(2) by blast
        qed
      qed
    qed
  qed
qed

lemma set_tl_subset: "set (tl xs) \<subseteq> set xs"
  by (cases xs) auto

lemma line_entry_wf:
  assumes "\<forall>c\<in>set raw. \<not> is_linebreak c"
  shows "wf_entry (line_entry raw)"
proof -
  define l where "l = py_strip raw"
  define t where "t = tl l"
  have "set t \<subseteq> set l" unfolding t_def by (rule set_tl_subset)
  moreover have "set l \<subseteq> set raw" unfolding l_def by (rule set_py_strip)
  ultimately have l: "set t \<subseteq> set raw" by (rule subset_trans)
  have k: "set (spec_key raw) \<subseteq> set (takeWhile (\<lambda>x. x \<noteq> CHR '':'') t)"
    unfolding spec_key_def l_def t_def by (rule set_py_strip)
  have tw: "\<And>x. x \<in> set (takeWhile (\<lambda>x. x \<noteq> CHR '':'') t) \<Longrightarrow> x \<in> set t \<and> x \<noteq> CHR '':''"
    by (rule set_takeWhileD)
  have k1: "CHR '':'' \<notin> set (spec_key raw)"
    using k tw by blast
  have k2: "set (spec_key raw) \<subseteq> set raw"
    using k l tw by blast
  have "set (spec_value raw) \<subseteq> set (tl (dropWhile (\<lambda>x. x \<noteq> CHR '':'') t))"
    unfolding spec_value_def l_def t_def by (rule set_py_strip)
  moreover have "set (tl (dropWhile (\<lambda>x. x \<noteq> CHR '':'') t)) \<subseteq> set (dropWhile (\<lambda>x. x \<noteq> CHR '':'') t)"
    by (rule set_tl_subset)
  moreover have "set (dropWhile (\<lambda>x. x \<noteq> CHR '':'') t) \<subseteq> set t"
    using set_dropWhileD by fastforce
  ultimately have v2: "set (spec_value raw) \<subseteq> set raw"
    using l by blast
  have s: "stripped (spec_key raw)" "stripped (spec_value raw)"
    by (simp_all add: spec_key_def spec_value_def py_strip_stripped)
  have nb: "\<forall>c\<in>set (spec_key raw) \<union> set (spec_value raw). \<not> is_linebreak c"
    using k2 v2 assms by blast
  show ?thesis using k1 s nb by (simp add: wf_entry_def line_entry_def)
qed

lemma update_list_all:
  "list_all P al \<Longrightarrow> P (k, v) \<Longrightarrow> list_all P (AList.update k v al)"
  by (induction al) auto

lemma parse_lines_wf:
  "parse_metadata_lines ls data = Inr d \<Longrightarrow> \<forall>l\<in>set ls. \<forall>c\<in>set l. \<not> is_linebreak c \<Longrightarrow>
   list_all wf_entry data \<Longrightarrow> list_all wf_entry d"
proof (induction ls arbitrary: data)
  case Nil
  then show ?case by simp
next
  case (Cons raw rest)
  show ?case
  proof (cases "spec_qualifies raw")
    case False
    then show ?thesis using Cons by (simp add: parse_step_skip)
  next
    case True
    have "wf_entry (spec_key raw, spec_value raw)"
      using line_entry_wf [of raw] Cons.prems(2) by (simp add: line_entry_def)
    then have "list_all wf_entry (AList.update (spec_key raw) (spec_value raw) data)"
      using Cons.prems(3) by (simp add: update_list_all)
    then show ?thesis
      using True Cons.prems Cons.IH [of "AList.update (spec_key raw) (spec_value raw) data"]
      by (simp add: parse_step_take)
  qed
qed

subsection \<open>Serializing and parsing again\<close>

lemma not_break_LF: "is_linebreak LF" "LF \<noteq> CR"
  by (simp_all add: is_linebreak_def LF_def CR_def)

lemma splitlines_line_LF:
  "\<forall>c\<in>set l. \<not> is_linebreak c \<Longrightarrow> splitlines (l @ LF # rest) = l # splitlines rest"
proof (induction l)
  case Nil
  show ?case
  proof (cases rest)
    case Nil
    then show ?thesis using not_break_LF by (simp add: splitlines_break_last)
  next
    case (Cons d ds)
    then show ?thesis using splitlines_break [of LF d ds] not_break_LF by simp
  qed
next
  case (Cons c l)
  then show ?case by (simp add: splitlines_plain)
qed

lemma splitlines_single:
  "\<forall>c\<in>set l. \<not> is_linebreak c \<Longrightarrow> l \<noteq> [] \<Longrightarrow> splitlines l = [l]"
proof (induction l)
  case Nil
  then show ?case by simp
next
  case (Cons c l)
  then show ?case by (cases "l = []") (auto simp: splitlines_plain)
qed

lemma splitlines_join:
  "\<forall>l\<in>set ls. l \<noteq> [] \<and> (\<forall>c\<in>set l. \<not> is_linebreak c) \<Longrightarrow> splitlines (join_lines ls) = ls"
proof (induction ls rule: join_lines.induct)
  case 1
  then show ?case by simp
next
  case (2 l)
  then show ?case by (simp add: splitlines_single)
next
  case (3 l m ls)
  then show ?case by (simp add: splitlines_line_LF)
qed


lemma update_fresh: "k \<notin> fst ` set al \<Longrightarrow> AList.update k v al = al @ [(k, v)]"
  by (induction al) auto

lemma takeWhile_upto: "c \<notin> set k \<Longrightarrow> takeWhile (\<lambda>x. x \<noteq> c) (k @ c # w) = k"
  by (induction k) auto

lemma dropWhile_upto: "c \<notin> set k \<Longrightarrow> dropWhile (\<lambda>x. x \<noteq> c) (k @ c # w) = c # w"
  by (induction k) auto

lemma spec_line_tail:
  assumes "stripped v"
  shows "tl (py_strip (spec_line (k, v))) = k @ CHR '':'' # (if v = [] then [] else CHR '' '' # v)"
  by (simp add: py_strip_spec_line [OF assms])

lemma spec_line_qualifies: "stripped v \<Longrightarrow> spec_qualifies (spec_line (k, v))"
  by (simp add: spec_qualifies_def py_strip_spec_line)

lemma spec_line_key:
  assumes "wf_entry (k, v)"
  shows "spec_key (spec_line (k, v)) = k"
proof -
  have v: "stripped v" and k: "stripped k" and c: "CHR '':'' \<notin> set k"
    using assms by (simp_all add: wf_entry_def)
  have "takeWhile (\<lambda>x. x \<noteq> CHR '':'') (k @ CHR '':'' # (if v = [] then [] else CHR '' '' # v)) = k"
    using c by (rule takeWhile_upto)
  then show ?thesis
    unfolding spec_key_def spec_line_tail [OF v] using py_strip_id [OF k] by simp
qed

lemma spec_line_value:
  assumes "wf_entry (k, v)"
  shows "spec_value (spec_line (k, v)) = v"
proof -
  have v: "stripped v" and c: "CHR '':'' \<notin> set k"
    using assms by (simp_all add: wf_entry_def)
  have "dropWhile (\<lambda>x. x \<noteq> CHR '':'') (k @ CHR '':'' # (if v = [] then [] else CHR '' '' # v))
      = CHR '':'' # (if v = [] then [] else CHR '' '' # v)"
    using c by (rule dropWhile_upto)
  then have "spec_value (spec_line (k, v)) = py_strip (if v = [] then [] else CHR '' '' # v)"
    unfolding spec_value_def spec_line_tail [OF v] by simp
  then show ?thesis using py_strip_space_Cons [OF v] by (simp add: py_strip_Nil)
qed

lemma parse_spec_lines:
  "list_all wf_entry d \<Longrightarrow> distinct (map fst (data @ d)) \<Longrightarrow>
   parse_metadata_lines (map spec_line d) data = Inr (data @ d)"
proof (induction d arbitrary: data)
  case Nil
  then show ?case by simp
next
  case (Cons kv d)
  obtain k v where kv: "kv = (k, v)" by (cases kv)
  have wf: "wf_entry (k, v)" using Cons.prems(1) kv by simp
  then have "stripped v" by (simp add: wf_entry_def)
  then have q: "spec_qualifies (spec_line (k, v))" by (rule spec_line_qualifies)
  have fresh: "k \<notin> fst ` set data" using Cons.prems(2) kv by auto
  have "parse_metadata_lines (map spec_line (kv # d)) data =
      parse_metadata_lines (map spec_line d) (AList.update k v data)"
    using parse_step_take [OF q] spec_line_key [OF wf] spec_line_value [OF wf] kv by simp
  also have "\<dots> = parse_metadata_lines (map spec_line d) (data @ [(k, v)])"
    using update_fresh [OF fresh] by simp
  also have "\<dots> = Inr ((data @ [(k, v)]) @ d)"
    using Cons.prems kv by (intro Cons.IH) simp_all
  finally show ?case using kv by simp
qed

lemma spec_line_plain:
  assumes "wf_entry kv"
  shows "spec_line kv \<noteq> [] \<and> (\<forall>c\<in>set (spec_line kv). \<not> is_linebreak c)"
proof -
  have "\<not> is_linebreak (CHR ''#'')" "\<not> is_linebreak (CHR '':'')" "\<not> is_linebreak (CHR '' '')"
    by (simp_all add: is_linebreak_def)
  then show ?thesis using assms by (auto simp: spec_line_def wf_entry_def)
qed

lemma parse_serialize:
  assumes "list_all wf_entry d" and "distinct (map fst d)"
  shows "parse_metadata_from_text (spec_serialize d) = Inr d"
proof -
  have "\<forall>l\<in>set (map spec_line d). l \<noteq> [] \<and> (\<forall>c\<in>set l. \<not> is_linebreak c)"
    using assms(1) spec_line_plain by (auto simp: list_all_iff)
  then have "splitlines (spec_serialize d) = map spec_line d"
    unfolding spec_serialize_def by (rule splitlines_join)
  then show ?thesis
    using parse_spec_lines [of d "[]"] assms by (simp add: parse_metadata_from_text_def)
qed

text \<open>
  C7. For every text the parser returns a dictionary and raises nothing; the dictionary
  is the map the specification reads off the qualifying lines (trimmed, not empty, first
  character \<open>#\<close>, a colon in it; key and value are the trimmed sides of the first colon;
  the last line of a key wins), every other line being skipped; and writing the dictionary
  out as \<open>#Key: Value\<close> lines and parsing those gives the same dictionary again.
\<close>

theorem parse_metadata_roundtrip:
  "\<exists>d. parse_metadata_from_text text = Inr d \<and> map_of d = spec_metadata text \<and>
       parse_metadata_from_text (spec_serialize d) = Inr d"
proof -
  from parse_lines_total [of "splitlines text" "[]"]
  obtain d where d: "parse_metadata_lines (splitlines text) [] = Inr d"
    and m: "map_of d = map_of [] ++ map_of (rev (map line_entry (filter spec_qualifies (splitlines text))))"
    by blast
  have "line_entry = (\<lambda>raw. (spec_key raw, spec_value raw))"
    by (rule ext) (simp add: line_entry_def)
  then have 1: "map_of d = spec_metadata text" using m by (simp add: spec_metadata_def)
  have 2: "distinct (map fst d)" using parse_lines_distinct [OF d] by simp
  have "\<forall>l\<in>set (splitlines text). \<forall>c\<in>set l. \<not> is_linebreak c"
    using splitlines_no_break by blast
  then have 3: "list_all wf_entry d" using parse_lines_wf [OF d] by simp
  show ?thesis
    using d 1 parse_serialize [OF 3 2] by (simp add: parse_metadata_from_text_def)
qed

theorem parse_metadata_roundtrip_witness:
  "parse_metadata_from_text (''#A: b'' @ [LF] @ ''note'' @ [LF] @ ''#A:c:d'') = Inr [(''A'', ''c:d'')] \<and>
   parse_metadata_from_text (spec_serialize [(''A'', ''c:d'')]) = Inr [(''A'', ''c:d'')]"
proof -
  define t0 where "t0 = ''#A: b'' @ [LF] @ ''note'' @ [LF] @ ''#A:c:d''"
  have e: "parse_metadata_from_text t0 = Inr [(''A'', ''c:d'')]"
    unfolding t0_def by code_simp
  from parse_metadata_roundtrip [of t0] obtain d where
    "parse_metadata_from_text t0 = Inr d" "parse_metadata_from_text (spec_serialize d) = Inr d"
    by blast
  then show ?thesis using e unfolding t0_def by simp
qed

section \<open>Properties of ensure_unique_dir\<close>

lemma ensure_unique_loop_spec:
  "\<not> fs_exists fs (ensure_unique_loop fs b n c i) \<and>
   (\<not> fs_exists fs c \<longrightarrow> ensure_unique_loop fs b n c i = c) \<and>
   (fs_exists fs c \<longrightarrow>
      (\<exists>k\<ge>i. ensure_unique_loop fs b n c i = b @ [n @ ''_'' @ str_of_nat k] \<and>
         (\<forall>j. i \<le> j \<and> j < k \<longrightarrow> fs_exists fs (b @ [n @ ''_'' @ str_of_nat j]))))"
proof (induction fs b n c i rule: ensure_unique_loop.induct)
  case (1 fs b n c i)
  show ?case
  proof (cases "fs_exists fs c")
    case False
    then show ?thesis by (simp add: ensure_unique_loop.simps [of fs b n c i])
  next
    case True
    let ?c = "b @ [n @ ''_'' @ str_of_nat i]"
    let ?r = "ensure_unique_loop fs b n ?c (i + 1)"
    have r: "ensure_unique_loop fs b n c i = ?r"
      using True by (subst ensure_unique_loop.simps) simp
    have IH: "\<not> fs_exists fs ?r"
      "\<not> fs_exists fs ?c \<longrightarrow> ?r = ?c"
      "fs_exists fs ?c \<longrightarrow> (\<exists>k\<ge>i + 1. ?r = b @ [n @ ''_'' @ str_of_nat k] \<and>
         (\<forall>j. i + 1 \<le> j \<and> j < k \<longrightarrow> fs_exists fs (b @ [n @ ''_'' @ str_of_nat j])))"
      using "1.IH" [OF True] by blast+
    have "\<exists>k\<ge>i. ?r = b @ [n @ ''_'' @ str_of_nat k] \<and>
         (\<forall>j. i \<le> j \<and> j < k \<longrightarrow> fs_exists fs (b @ [n @ ''_'' @ str_of_nat j]))"
    proof (cases "fs_exists fs ?c")
      case False
      then have "?r = ?c" using IH(2) by blast
      moreover have "\<forall>j. i \<le> j \<and> j < i \<longrightarrow> fs_exists fs (b @ [n @ ''_'' @ str_of_nat j])"
        by auto
      ultimately show ?thesis by (intro exI [of _ i]) blast
    next
      case T: True
      then obtain k where k: "i + 1 \<le> k" "?r = b @ [n @ ''_'' @ str_of_nat k]"
        "\<forall>j. i + 1 \<le> j \<and> j < k \<longrightarrow> fs_exists fs (b @ [n @ ''_'' @ str_of_nat j])"
        using IH(3) by blast
      have "\<forall>j. i \<le> j \<and> j < k \<longrightarrow> fs_exists fs (b @ [n @ ''_'' @ str_of_nat j])"
      proof (intro allI impI)
        fix j assume j: "i \<le> j \<and> j < k"
        show "fs_exists fs (b @ [n @ ''_'' @ str_of_nat j])"
        proof (cases "j = i")
          case True
          then show ?thesis using T by simp
        next
          case False
          then have "i + 1 \<le> j \<and> j < k" using j by simp
          then show ?thesis using k(3) by blast
        qed
      qed
      moreover have "i \<le> k" using k(1) by simp
      ultimately show ?thesis using k(2) by blast
    qed
    then show ?thesis using True IH(1) unfolding r by blast
  qed
qed

text \<open>
  C8. Whatever exists under the base directory, \<open>ensure_unique_dir\<close> returns (the loop
  ends) a path that does not exist when it is checked: \<open>base/name\<close> when that is free,
  and otherwise \<open>base/name_i\<close> for the least \<open>i \<ge> 1\<close> whose candidate is free, all
  candidates before it existing.
\<close>

theorem ensure_unique_dir_free:
  "\<not> fs_exists fs (ensure_unique_dir fs base name) \<and>
   (\<not> fs_exists fs (base @ [name]) \<longrightarrow> ensure_unique_dir fs base name = base @ [name]) \<and>
   (fs_exists fs (base @ [name]) \<longrightarrow>
      (\<exists>i\<ge>1. ensure_unique_dir fs base name = base @ [name @ ''_'' @ str_of_nat i] \<and>
         (\<forall>j. 1 \<le> j \<and> j < i \<longrightarrow> fs_exists fs (base @ [name @ ''_'' @ str_of_nat j]))))"
  unfolding ensure_unique_dir_def by (rule ensure_unique_loop_spec)

theorem ensure_unique_dir_free_witness:
  "ensure_unique_dir [([''out''], Dir), ([''out'', ''cube''], Dir), ([''out'', ''cube_1''], Dir),
      ([''out'', ''cube_2''], Dir)] [''out''] ''cube'' = [''out'', ''cube_3''] \<and>
   \<not> fs_exists [([''out''], Dir), ([''out'', ''cube''], Dir), ([''out'', ''cube_1''], Dir),
      ([''out'', ''cube_2''], Dir)] [''out'', ''cube_3'']"
proof -
  define fs :: filesys where "fs = [([''out''], Dir), ([''out'', ''cube''], Dir),
     ([''out'', ''cube_1''], Dir), ([''out'', ''cube_2''], Dir)]"
  have e: "ensure_unique_dir fs [''out''] ''cube'' = [''out'', ''cube_3'']"
    unfolding fs_def by code_simp
  have "\<not> fs_exists fs (ensure_unique_dir fs [''out''] ''cube'')"
    using ensure_unique_dir_free [of fs "[''out'']" "''cube''"] by (rule conjunct1)
  then show ?thesis using e unfolding fs_def by simp
qed

section \<open>Properties of the polygon count\<close>

















section \<open>Properties of the preview resolution\<close>

lemma find_ex: "\<exists>x\<in>set xs. P x \<Longrightarrow> \<exists>y. find P xs = Some y \<and> y \<in> set xs \<and> P y"
  by (induction xs) auto

lemma find_none: "\<forall>x\<in>set xs. \<not> P x \<Longrightarrow> find P xs = None"
  by (simp add: find_None_iff)

lemma resolve_preview_hint:
  assumes "h \<noteq> []" "\<exists>f\<in>set files. path_name f = h"
  shows "\<exists>p. resolve_preview files (Some h) zp = Inr p \<and>
             find (\<lambda>f. path_name f = h) files = Some p \<and> p \<in> set files \<and> path_name p = h"
proof -
  from find_ex [of files "\<lambda>f. path_name f = h"] assms(2)
  obtain p where p: "find (\<lambda>f. path_name f = h) files = Some p" "p \<in> set files" "path_name p = h"
    by blast
  have "resolve_preview files (Some h) zp = Inr p"
    using assms(1) p(1) by (simp add: resolve_preview_def)
  then show ?thesis using p by blast
qed

lemma resolve_preview_fallback:
  assumes "\<not> hint_matches files hint"
  shows "resolve_preview files hint zp =
     (case find_preview_file files of
        None \<Rightarrow> Inl (RuntimeError (''No preview image found (jpg/png) in '' @ path_str zp))
      | Some p \<Rightarrow> Inr p)"
proof (cases hint)
  case None
  then show ?thesis by (simp add: resolve_preview_def)
next
  case (Some h)
  show ?thesis
  proof (cases "h = []")
    case True
    then show ?thesis using Some by (simp add: resolve_preview_def)
  next
    case False
    then have "\<forall>f\<in>set files. path_name f \<noteq> h"
      using assms Some by (simp add: hint_matches_def list_ex_iff)
    then have "find (\<lambda>f. path_name f = h) files = None" by (simp add: find_None_iff)
    then show ?thesis using Some False by (simp add: resolve_preview_def)
  qed
qed

lemma find_preview_jpeg:
  assumes "\<exists>f\<in>set files. jpeg_file f"
  shows "\<exists>p. find_preview_file files = Some p \<and> find jpeg_file files = Some p \<and>
             p \<in> set files \<and> jpeg_file p"
proof -
  from find_ex [of files jpeg_file] assms
  obtain p where p: "find jpeg_file files = Some p" "p \<in> set files" "jpeg_file p" by blast
  have j: "jpeg_file = (\<lambda>f. py_lower (path_suffix f) \<in> {''.jpg'', ''.jpeg''})"
    by (rule ext) (simp add: jpeg_file_def)
  have "find_preview_file files = Some p"
    using p(1) unfolding find_preview_file_def j by simp
  then show ?thesis using p by blast
qed

lemma find_preview_png:
  assumes "\<forall>f\<in>set files. \<not> jpeg_file f"
  shows "find_preview_file files = find png_file files"
proof -
  have j: "jpeg_file = (\<lambda>f. py_lower (path_suffix f) \<in> {''.jpg'', ''.jpeg''})"
    by (rule ext) (simp add: jpeg_file_def)
  have g: "png_file = (\<lambda>f. py_lower (path_suffix f) = ''.png'')"
    by (rule ext) (simp add: png_file_def)
  have "find jpeg_file files = None" using assms by (simp add: find_None_iff)
  then show ?thesis unfolding find_preview_file_def j g by simp
qed

lemma process_extracted_preview_fatal:
  assumes "select_metadata (rglob_files fs tmpdir) zp = Inr mf"
    and "try_open fs mf = Inr content"
    and "parse_metadata_from_text content = Inr parsed"
    and "resolve_preview (rglob_files fs tmpdir) (map_of parsed ''PreviewFile'') zp = Inl e"
  shows "\<exists>e'. process_extracted zp final_base_dir tmpdir fs = (Inl e', fs)"
proof (cases "rglob_files fs tmpdir = []")
  case True
  then show ?thesis by (simp add: process_extracted_def)
next
  case False
  show ?thesis
  proof (cases "resolve_geometry (rglob_files fs tmpdir) (map_of parsed ''GeometryFile'') zp")
    case (Inl a)
    then show ?thesis using False assms by (simp add: process_extracted_def)
  next
    case (Inr g)
    then show ?thesis using False assms by (simp add: process_extracted_def)
  qed
qed

text \<open>
  C6. With a hint that is a non-empty string and the name of an extracted file, the
  first file of that name is the preview. Otherwise the first file with the extension
  \<open>.jpg\<close> or \<open>.jpeg\<close> (in any case of letters) is taken, wherever the PNG files stand
  in the list; without such a file, the first \<open>.png\<close> file; without either, the
  resolution raises \<open>RuntimeError\<close>, and \<open>process_one_zip\<close> ends with an error for the
  archive, having made no directory.
\<close>

theorem resolve_preview_spec:
  "(h \<noteq> [] \<and> (\<exists>f\<in>set files. path_name f = h) \<longrightarrow>
      (\<exists>p. resolve_preview files (Some h) zp = Inr p \<and>
           find (\<lambda>f. path_name f = h) files = Some p \<and> p \<in> set files \<and> path_name p = h)) \<and>
   (\<not> hint_matches files hint \<and> (\<exists>f\<in>set files. jpeg_file f) \<longrightarrow>
      (\<exists>p. resolve_preview files hint zp = Inr p \<and> find jpeg_file files = Some p \<and>
           p \<in> set files \<and> jpeg_file p)) \<and>
   (\<not> hint_matches files hint \<and> (\<forall>f\<in>set files. \<not> jpeg_file f) \<and> (\<exists>f\<in>set files. png_file f) \<longrightarrow>
      (\<exists>p. resolve_preview files hint zp = Inr p \<and> find png_file files = Some p \<and>
           p \<in> set files \<and> png_file p)) \<and>
   (\<not> hint_matches files hint \<and> (\<forall>f\<in>set files. \<not> jpeg_file f \<and> \<not> png_file f) \<longrightarrow>
      resolve_preview files hint zp =
        Inl (RuntimeError (''No preview image found (jpg/png) in '' @ path_str zp))) \<and>
   (select_metadata (rglob_files fs tmpdir) zp = Inr mf \<and> try_open fs mf = Inr content \<and>
    parse_metadata_from_text content = Inr parsed \<and>
    resolve_preview (rglob_files fs tmpdir) (map_of parsed ''PreviewFile'') zp = Inl e \<longrightarrow>
      (\<exists>e'. process_extracted zp final_base_dir tmpdir fs = (Inl e', fs)))"
proof -
  have A: "h \<noteq> [] \<and> (\<exists>f\<in>set files. path_name f = h) \<longrightarrow>
      (\<exists>p. resolve_preview files (Some h) zp = Inr p \<and>
           find (\<lambda>f. path_name f = h) files = Some p \<and> p \<in> set files \<and> path_name p = h)"
    using resolve_preview_hint by blast
  have B: "\<not> hint_matches files hint \<and> (\<exists>f\<in>set files. jpeg_file f) \<longrightarrow>
      (\<exists>p. resolve_preview files hint zp = Inr p \<and> find jpeg_file files = Some p \<and>
           p \<in> set files \<and> jpeg_file p)"
  proof (intro impI, elim conjE)
    assume n: "\<not> hint_matches files hint" and j: "\<exists>f\<in>set files. jpeg_file f"
    from find_preview_jpeg [OF j] obtain p where
      p: "find_preview_file files = Some p" "find jpeg_file files = Some p" "p \<in> set files" "jpeg_file p"
      by blast
    have "resolve_preview files hint zp = Inr p"
      using resolve_preview_fallback [OF n] p(1) by simp
    then show "\<exists>p. resolve_preview files hint zp = Inr p \<and> find jpeg_file files = Some p \<and>
           p \<in> set files \<and> jpeg_file p" using p by blast
  qed
  have C: "\<not> hint_matches files hint \<and> (\<forall>f\<in>set files. \<not> jpeg_file f) \<and> (\<exists>f\<in>set files. png_file f) \<longrightarrow>
      (\<exists>p. resolve_preview files hint zp = Inr p \<and> find png_file files = Some p \<and>
           p \<in> set files \<and> png_file p)"
  proof (intro impI, elim conjE)
    assume n: "\<not> hint_matches files hint" and j: "\<forall>f\<in>set files. \<not> jpeg_file f"
      and g: "\<exists>f\<in>set files. png_file f"
    from find_ex [of files png_file] g
    obtain p where p: "find png_file files = Some p" "p \<in> set files" "png_file p" by blast
    have "resolve_preview files hint zp = Inr p"
      using resolve_preview_fallback [OF n] find_preview_png [OF j] p(1) by simp
    then show "\<exists>p. resolve_preview files hint zp = Inr p \<and> find png_file files = Some p \<and>
           p \<in> set files \<and> png_file p" using p by blast
  qed
  have D: "\<not> hint_matches files hint \<and> (\<forall>f\<in>set files. \<not> jpeg_file f \<and> \<not> png_file f) \<longrightarrow>
      resolve_preview files hint zp =
        Inl (RuntimeError (''No preview image found (jpg/png) in '' @ path_str zp))"
  proof (intro impI, elim conjE)
    assume n: "\<not> hint_matches files hint" and j: "\<forall>f\<in>set files. \<not> jpeg_file f \<and> \<not> png_file f"
    have "find_preview_file files = find png_file files" using find_preview_png j by blast
    moreover have "find png_file files = None" using j by (simp add: find_None_iff)
    ultimately show "resolve_preview files hint zp =
        Inl (RuntimeError (''No preview image found (jpg/png) in '' @ path_str zp))"
      using resolve_preview_fallback [OF n] by simp
  qed
  have E: "select_metadata (rglob_files fs tmpdir) zp = Inr mf \<and> try_open fs mf = Inr content \<and>
    parse_metadata_from_text content = Inr parsed \<and>
    resolve_preview (rglob_files fs tmpdir) (map_of parsed ''PreviewFile'') zp = Inl e \<longrightarrow>
      (\<exists>e'. process_extracted zp final_base_dir tmpdir fs = (Inl e', fs))"
    using process_extracted_preview_fatal by blast
  show ?thesis using A B C D E by blast
qed


theorem resolve_preview_spec_witness:
  "resolve_preview [[''t'', ''a.png''], [''t'', ''b.JPG''], [''t'', ''c.jpeg'']] None [''in'', ''m.zip'']
     = Inr [''t'', ''b.JPG''] \<and>
   resolve_preview [[''t'', ''a.png''], [''t'', ''b.JPG'']] (Some ''a.png'') [''in'', ''m.zip'']
     = Inr [''t'', ''a.png''] \<and>
   (\<exists>e'. process_extracted [''in'', ''m.zip''] [''out''] [''t'']
      [([''t''], Dir), ([''t'', ''m.obj''], File (FData None None)),
       ([''t'', ''m.txt''], File (FData None (Some ''#GeometryFile: m.obj'')))]
     = (Inl e',
      [([''t''], Dir), ([''t'', ''m.obj''], File (FData None None)),
       ([''t'', ''m.txt''], File (FData None (Some ''#GeometryFile: m.obj'')))]))"
proof -
  define files :: "path list" where "files = [[''t'', ''a.png''], [''t'', ''b.JPG''], [''t'', ''c.jpeg'']]"
  define files2 :: "path list" where "files2 = [[''t'', ''a.png''], [''t'', ''b.JPG'']]"
  define fs :: filesys where "fs = [([''t''], Dir), ([''t'', ''m.obj''], File (FData None None)),
       ([''t'', ''m.txt''], File (FData None (Some ''#GeometryFile: m.obj'')))]"
  define zp :: path where "zp = [''in'', ''m.zip'']"
  have b: "\<not> hint_matches files None \<and> (\<exists>f\<in>set files. jpeg_file f)"
    unfolding files_def by code_simp
  have bf: "find jpeg_file files = Some [''t'', ''b.JPG'']"
    unfolding files_def by code_simp
  have a: "''a.png'' \<noteq> [] \<and> (\<exists>f\<in>set files2. path_name f = ''a.png'')"
    unfolding files2_def by code_simp
  have af: "find (\<lambda>f. path_name f = ''a.png'') files2 = Some [''t'', ''a.png'']"
    unfolding files2_def by code_simp
  have e: "select_metadata (rglob_files fs [''t'']) zp = Inr [''t'', ''m.txt''] \<and>
      try_open fs [''t'', ''m.txt''] = Inr ''#GeometryFile: m.obj'' \<and>
      parse_metadata_from_text ''#GeometryFile: m.obj'' = Inr [(''GeometryFile'', ''m.obj'')] \<and>
      resolve_preview (rglob_files fs [''t'']) (map_of [(''GeometryFile'', ''m.obj'')] ''PreviewFile'') zp
        = Inl (RuntimeError ''No preview image found (jpg/png) in in/m.zip'')"
    unfolding fs_def zp_def by code_simp
  have 1: "resolve_preview files None zp = Inr [''t'', ''b.JPG'']"
    using resolve_preview_spec [where files = files and hint = None and zp = zp] b bf by fastforce
  have 2: "resolve_preview files2 (Some ''a.png'') zp = Inr [''t'', ''a.png'']"
    using resolve_preview_spec [where h = "''a.png''" and files = files2 and zp = zp] a af by fastforce
  have 3: "\<exists>e'. process_extracted zp [''out''] [''t''] fs = (Inl e', fs)"
    using resolve_preview_spec [where zp = zp and fs = fs and tmpdir = "[''t'']" and mf = "[''t'', ''m.txt'']"
        and content = "''#GeometryFile: m.obj''" and parsed = "[(''GeometryFile'', ''m.obj'')]"
        and e = "RuntimeError ''No preview image found (jpg/png) in in/m.zip''"
        and final_base_dir = "[''out'']"] e
    by blast
  show ?thesis using 1 2 3 unfolding files_def files2_def fs_def zp_def by blast
qed

section \<open>Properties of the filesystem calls\<close>

lemma agree_refl: "agree P fs fs"
  by (simp add: agree_def)

lemma agree_trans: "agree P fs fs1 \<Longrightarrow> agree P fs1 fs2 \<Longrightarrow> agree P fs fs2"
  by (simp add: agree_def)

lemma agree_weaken: "agree Q fs fs' \<Longrightarrow> (\<And>q. P q \<Longrightarrow> Q q) \<Longrightarrow> agree P fs fs'"
  by (simp add: agree_def)

lemma map_of_filter_key:
  "map_of (filter (\<lambda>(q, n). P q) fs) k = (if P k then map_of fs k else None)"
  by (induction fs) auto

lemma node_at_snoc:
  "node_at (fs @ [(p, n)]) q =
     (if q = [] then Some Dir
      else (case map_of fs q of Some x \<Rightarrow> Some x | None \<Rightarrow> if q = p then Some n else None))"
  by (auto simp: node_at_def map_add_def split: option.splits)

lemma node_at_Nil: "node_at fs [] = Some Dir"
  by (simp add: node_at_def)

lemma fs_exists_Nil: "fs_exists fs []"
  by (simp add: fs_exists_def node_at_def)

lemma node_at_remove_tree:
  "node_at (remove_tree fs p) q =
     (if q = [] then Some Dir else if prefix p q then None else node_at fs q)"
  by (simp add: node_at_def remove_tree_def map_of_filter_key)

lemma os_mkdir_Inr:
  "os_mkdir fs p = Inr fs' \<Longrightarrow>
   fs' = fs @ [(p, Dir)] \<and> \<not> fs_exists fs p \<and> fs_is_dir fs (butlast p)"
  by (auto simp: os_mkdir_def fs_is_dir_def split: if_splits option.splits node.splits)

lemma os_mkdir_node:
  assumes "os_mkdir fs p = Inr fs'"
  shows "node_at fs' q = (if q = p then Some Dir else node_at fs q)"
proof -
  have f: "fs' = fs @ [(p, Dir)]" and n: "\<not> fs_exists fs p"
    using os_mkdir_Inr [OF assms] by simp_all
  have pne: "p \<noteq> []" using n fs_exists_Nil by blast
  have "map_of fs p = None" using n pne by (simp add: fs_exists_def node_at_def)
  then show ?thesis unfolding f node_at_snoc using pne
    by (auto simp: node_at_def split: option.splits)
qed

lemma write_file_node:
  assumes "write_file fs p d = Inr fs'"
  shows "node_at fs' q = (if q = p then Some (File d) else node_at fs q)"
proof -
  have f: "fs' = AList.update p (File d) fs"
    using assms by (auto simp: write_file_def split: option.splits node.splits)
  have "node_at fs p \<noteq> Some Dir"
    using assms by (auto simp: write_file_def split: option.splits node.splits)
  then have "p \<noteq> []" using node_at_Nil by metis
  then show ?thesis unfolding f by (simp add: node_at_def update_conv')
qed

lemma shutil_move_node:
  assumes "shutil_move fs src dst = Inr fs'"
  shows "\<exists>d. node_at fs src = Some (File d) \<and>
     (let real_dst = (if fs_is_dir fs dst then dst @ [path_name src] else dst) in
      fs_is_dir fs (butlast real_dst) \<and> real_dst \<noteq> [] \<and>
      (\<forall>q. node_at fs' q =
          (if q = real_dst then Some (File d) else if q = src then None else node_at fs q)))"
proof -
  define real_dst where "real_dst = (if fs_is_dir fs dst then dst @ [path_name src] else dst)"
  from assms obtain d where d: "node_at fs src = Some (File d)"
    and par: "node_at fs (butlast real_dst) = Some Dir"
    and f: "fs' = filter (\<lambda>(q, n). q \<noteq> src \<and> q \<noteq> real_dst) fs @ [(real_dst, File d)]"
    and nd: "\<not> (fs_is_dir fs dst \<and> fs_exists fs real_dst)"
    unfolding shutil_move_def real_dst_def [symmetric] Let_def
    by (auto split: if_splits option.splits node.splits)
  have rne: "real_dst \<noteq> []"
  proof
    assume e: "real_dst = []"
    then have "dst = []" "\<not> fs_is_dir fs dst" by (auto simp: real_dst_def split: if_splits)
    then show False by (simp add: fs_is_dir_def node_at_def)
  qed
  have sne: "src \<noteq> []" using d by (auto simp: node_at_def)
  have "\<forall>q. node_at fs' q =
          (if q = real_dst then Some (File d) else if q = src then None else node_at fs q)"
    unfolding f node_at_snoc using rne sne
    by (auto simp: node_at_def map_of_filter_key split: option.splits)
  then show ?thesis using d par rne unfolding real_dst_def Let_def fs_is_dir_def by blast
qed


lemma made_dirs_refl: "fs_is_dir fs p \<Longrightarrow> made_dirs fs fs p"
  by (auto simp: made_dirs_def agree_def fs_exists_def)

lemma made_dirs_os_mkdir: "os_mkdir fs p = Inr fs' \<Longrightarrow> made_dirs fs fs' p"
  using os_mkdir_node [of fs p fs'] os_mkdir_Inr [of fs p fs']
  by (auto simp: made_dirs_def agree_def fs_exists_def fs_is_dir_def)

lemma made_dirs_trans:
  assumes "made_dirs fs fs1 (butlast p)" "made_dirs fs1 fs' p"
  shows "made_dirs fs fs' p"
proof -
  have a1: "agree (fs_exists fs) fs fs1" and a2: "agree (fs_exists fs1) fs1 fs'"
    using assms by (simp_all add: made_dirs_def)
  have ex: "\<And>q. fs_exists fs q \<Longrightarrow> fs_exists fs1 q"
    using a1 by (simp add: agree_def fs_exists_def)
  have A: "agree (fs_exists fs) fs fs'"
    using a1 a2 ex by (simp add: agree_def)
  have B: "\<forall>q. \<not> fs_exists fs q \<longrightarrow> node_at fs' q = None \<or> (node_at fs' q = Some Dir \<and> prefix q p)"
  proof (intro allI impI)
    fix q assume n: "\<not> fs_exists fs q"
    show "node_at fs' q = None \<or> (node_at fs' q = Some Dir \<and> prefix q p)"
    proof (cases "fs_exists fs1 q")
      case True
      then have "node_at fs' q = node_at fs1 q" using a2 by (simp add: agree_def)
      moreover have "node_at fs1 q = None \<or> (node_at fs1 q = Some Dir \<and> prefix q (butlast p))"
        using assms(1) n unfolding made_dirs_def by blast
      then have "node_at fs1 q = Some Dir \<and> prefix q (butlast p)"
        using True unfolding fs_exists_def by blast
      moreover have "prefix (butlast p) p" by (simp add: prefixeq_butlast)
      ultimately show ?thesis using prefix_order.trans by metis
    next
      case False
      then show ?thesis using assms(2) by (simp add: made_dirs_def)
    qed
  qed
  show ?thesis using A B assms(2) by (simp add: made_dirs_def)
qed

lemma path_mkdir_made:
  "path_mkdir parents exist_ok fs p = Inr fs' \<Longrightarrow> made_dirs fs fs' p"
proof (induction parents exist_ok fs p arbitrary: fs' rule: path_mkdir.induct)
  case (1 parents exist_ok fs p)
  show ?case
  proof (cases "os_mkdir fs p")
    case (Inr f)
    then have "fs' = f" using "1.prems" by (simp add: path_mkdir.simps [of parents exist_ok fs p])
    then show ?thesis using Inr made_dirs_os_mkdir by simp
  next
    case (Inl e)
    show ?thesis
    proof (cases "e = FileNotFoundError")
      case True
      have np: "\<not> (\<not> parents \<or> p = [])"
        using "1.prems" Inl True by (auto simp: path_mkdir.simps [of parents exist_ok fs p] split: if_splits)
      from "1.prems" Inl True np obtain fs1 where
        s1: "path_mkdir True True fs (butlast p) = Inr fs1" and
        s2: "path_mkdir False exist_ok fs1 p = Inr fs'"
        by (auto simp: path_mkdir.simps [of parents exist_ok fs p] split: sum.splits if_splits)
      have "made_dirs fs fs1 (butlast p)" using "1.IH"(1) [OF Inl True np s1] .
      moreover have "made_dirs fs1 fs' p" using "1.IH"(2) [OF Inl True np s1 s2] .
      ultimately show ?thesis by (rule made_dirs_trans)
    next
      case False
      then have "fs' = fs \<and> fs_is_dir fs p"
        using "1.prems" Inl by (auto simp: path_mkdir.simps [of parents exist_ok fs p] split: if_splits)
      then show ?thesis using made_dirs_refl by simp
    qed
  qed
qed

section \<open>Properties of the discovery\<close>

lemma discover_set:
  assumes "fs_is_dir fs input_dir"
  shows "set (discover fs input_dir) =
     {p. \<exists>d. (p, File d) \<in> set fs \<and> strict_prefix input_dir p \<and>
              endswith (py_lower (path_name p)) ''.zip''}"
proof -
  have "\<And>n. is_file_node n \<longleftrightarrow> (\<exists>d. n = File d)"
    by (simp add: is_file_node_def split: node.splits)
  then show ?thesis using assms by (auto simp: discover_def image_iff) force
qed

lemma discover_deep:
  assumes "fs_is_dir fs input_dir" "(input_dir @ sub # rest @ [n], File d) \<in> set fs"
    "endswith (py_lower n) ''.zip''"
  shows "input_dir @ sub # rest @ [n] \<in> set (discover fs input_dir)"
proof -
  have "strict_prefix input_dir (input_dir @ sub # rest @ [n])"
    by (simp add: strict_prefix_def)
  moreover have "path_name (input_dir @ sub # rest @ [n]) = n"
    by (simp add: path_name_def)
  ultimately show ?thesis using assms discover_set [OF assms(1)] by auto
qed

lemma wf_fs_parent:
  assumes "wf_fs fs" "q \<noteq> []" "fs_exists fs q"
  shows "fs_is_dir fs (butlast q)"
proof -
  from assms(2,3) obtain n where "map_of fs q = Some n"
    by (auto simp: fs_exists_def node_at_def)
  then have "(q, n) \<in> set fs" by (rule map_of_SomeD)
  then show ?thesis using assms(1) by (auto simp: wf_fs_def list_all_iff)
qed

lemma discover_file:
  assumes "wf_fs fs" "zp \<in> set (discover fs input_dir)"
  shows "\<exists>d. node_at fs zp = Some (File d)"
proof -
  have dir: "fs_is_dir fs input_dir" using assms(2) by (auto simp: discover_def split: if_splits)
  from assms(2) discover_set [OF dir] obtain d where d: "(zp, File d) \<in> set fs"
    "strict_prefix input_dir zp" by auto
  have "distinct (map fst fs)" using assms(1) by (simp add: wf_fs_def)
  then have "map_of fs zp = Some (File d)" using d(1) by simp
  moreover have "zp \<noteq> []" using d(2) by auto
  ultimately show ?thesis by (auto simp: node_at_def)
qed

lemma shutil_move_file:
  "\<not> fs_is_dir fs dst \<Longrightarrow> node_at fs src = Some (File d) \<Longrightarrow>
   node_at fs (butlast dst) = Some Dir \<Longrightarrow>
   shutil_move fs src dst = Inr (filter (\<lambda>(q, n). q \<noteq> src \<and> q \<noteq> dst) fs @ [(dst, File d)])"
  by (simp add: shutil_move_def Let_def)

lemma moved_into_dir:
  assumes dir: "fs_is_dir fs input_dir"
    and zp: "node_at fs zp = Some (File d)" "strict_prefix input_dir zp"
      "endswith (py_lower (path_name zp)) ''.zip''"
    and mk: "path_mkdir False True fs (input_dir @ [sub]) = Inr fs1"
    and nd: "\<not> fs_is_dir fs (input_dir @ [sub, path_name zp])"
  shows "\<exists>fs2. shutil_move fs1 zp (input_dir @ [sub] @ [path_name zp]) = Inr fs2 \<and>
           input_dir @ [sub, path_name zp] \<in> set (discover fs2 input_dir)"
proof -
  let ?dst = "input_dir @ [sub, path_name zp]"
  have md: "made_dirs fs fs1 (input_dir @ [sub])" using path_mkdir_made [OF mk] .
  then have ag: "agree (fs_exists fs) fs fs1" by (simp add: made_dirs_def)
  have z1: "node_at fs1 zp = Some (File d)"
    using ag zp(1) by (simp add: agree_def fs_exists_def)
  have d1: "node_at fs1 input_dir = Some Dir"
    using ag dir by (simp add: agree_def fs_exists_def fs_is_dir_def)
  have nd1: "\<not> fs_is_dir fs1 ?dst"
  proof (cases "fs_exists fs ?dst")
    case True
    then show ?thesis using ag nd by (simp add: agree_def fs_is_dir_def)
  next
    case False
    have "\<not> prefix ?dst (input_dir @ [sub])" by (auto simp: prefix_def)
    then show ?thesis using md False by (auto simp: made_dirs_def fs_is_dir_def)
  qed
  have par: "node_at fs1 (butlast ?dst) = Some Dir"
    using md by (simp add: made_dirs_def fs_is_dir_def butlast_append)
  define fs2 where "fs2 = filter (\<lambda>(q, n). q \<noteq> zp \<and> q \<noteq> ?dst) fs1 @ [(?dst, File d)]"
  have mv: "shutil_move fs1 zp (input_dir @ [sub] @ [path_name zp]) = Inr fs2"
    using shutil_move_file [OF nd1 z1 par] by (simp add: fs2_def)
  have in2: "(?dst, File d) \<in> set fs2" by (simp add: fs2_def)
  have "input_dir \<noteq> ?dst" by simp
  moreover have "input_dir \<noteq> zp" using zp(2) by auto
  ultimately have "node_at fs2 input_dir = node_at fs1 input_dir"
    using shutil_move_node [OF mv] nd1 by (auto simp: Let_def)
  then have dir2: "fs_is_dir fs2 input_dir" using d1 by (simp add: fs_is_dir_def)
  have "strict_prefix input_dir ?dst" by (simp add: strict_prefix_def)
  moreover have "path_name ?dst = path_name zp" by (simp add: path_name_def)
  ultimately have "?dst \<in> set (discover fs2 input_dir)"
    using discover_set [OF dir2] in2 zp(3) by auto
  then show ?thesis using mv by blast
qed


text \<open>
  C9. The archives of a run are exactly the files, at any depth below \<open>input_dir\<close>,
  whose lower-cased name ends in \<open>.zip\<close>: a file in a subdirectory is taken, whatever the
  subdirectory is called; and an archive that the loop has put into \<open>_failed\<close> or
  \<open>_processed\<close> is among the archives of a run on the filesystem it leaves.
\<close>

theorem discover_recursive:
  "(fs_is_dir fs input_dir \<longrightarrow>
      set (discover fs input_dir) =
        {p. \<exists>d. (p, File d) \<in> set fs \<and> strict_prefix input_dir p \<and>
                 endswith (py_lower (path_name p)) ''.zip''}) \<and>
   (fs_is_dir fs input_dir \<and> (input_dir @ sub # rest @ [n], File d) \<in> set fs \<and>
    endswith (py_lower n) ''.zip'' \<longrightarrow>
      input_dir @ sub # rest @ [n] \<in> set (discover fs input_dir)) \<and>
   (wf_fs fs \<and> zp \<in> set (discover fs input_dir) \<and>
    \<not> fs_is_dir fs (input_dir @ [''_failed'', path_name zp]) \<and>
    route_failed input_dir zp fs = Inr fs' \<longrightarrow>
      input_dir @ [''_failed'', path_name zp] \<in> set (discover fs' input_dir)) \<and>
   (wf_fs fs \<and> zp \<in> set (discover fs input_dir) \<and>
    \<not> fs_is_dir fs (input_dir @ [''_processed'', path_name zp]) \<and>
    route_processed input_dir zp fs = (Inr (), fs') \<longrightarrow>
      input_dir @ [''_processed'', path_name zp] \<in> set (discover fs' input_dir))"
proof -
  have A: "fs_is_dir fs input_dir \<longrightarrow>
      set (discover fs input_dir) =
        {p. \<exists>d. (p, File d) \<in> set fs \<and> strict_prefix input_dir p \<and>
                 endswith (py_lower (path_name p)) ''.zip''}"
    using discover_set by blast
  have B: "fs_is_dir fs input_dir \<and> (input_dir @ sub # rest @ [n], File d) \<in> set fs \<and>
    endswith (py_lower n) ''.zip'' \<longrightarrow>
      input_dir @ sub # rest @ [n] \<in> set (discover fs input_dir)"
    using discover_deep by blast
  have R: "\<And>s. wf_fs fs \<Longrightarrow> zp \<in> set (discover fs input_dir) \<Longrightarrow>
      \<not> fs_is_dir fs (input_dir @ [s, path_name zp]) \<Longrightarrow>
      path_mkdir False True fs (input_dir @ [s]) = Inr fs1 \<Longrightarrow>
      \<exists>fs2. shutil_move fs1 zp (input_dir @ [s] @ [path_name zp]) = Inr fs2 \<and>
           input_dir @ [s, path_name zp] \<in> set (discover fs2 input_dir)" for fs1
  proof -
    fix s assume w: "wf_fs fs" and z: "zp \<in> set (discover fs input_dir)"
      and nd: "\<not> fs_is_dir fs (input_dir @ [s, path_name zp])"
      and mk: "path_mkdir False True fs (input_dir @ [s]) = Inr fs1"
    have dir: "fs_is_dir fs input_dir" using z by (auto simp: discover_def split: if_splits)
    from discover_file [OF w z] obtain d where d: "node_at fs zp = Some (File d)" by blast
    have "strict_prefix input_dir zp" "endswith (py_lower (path_name zp)) ''.zip''"
      using z discover_set [OF dir] by auto
    then show "\<exists>fs2. shutil_move fs1 zp (input_dir @ [s] @ [path_name zp]) = Inr fs2 \<and>
           input_dir @ [s, path_name zp] \<in> set (discover fs2 input_dir)"
      using moved_into_dir [OF dir d _ _ mk nd] by blast
  qed
  have C: "wf_fs fs \<and> zp \<in> set (discover fs input_dir) \<and>
    \<not> fs_is_dir fs (input_dir @ [''_failed'', path_name zp]) \<and>
    route_failed input_dir zp fs = Inr fs' \<longrightarrow>
      input_dir @ [''_failed'', path_name zp] \<in> set (discover fs' input_dir)"
  proof (intro impI, elim conjE)
    assume w: "wf_fs fs" and z: "zp \<in> set (discover fs input_dir)"
      and nd: "\<not> fs_is_dir fs (input_dir @ [''_failed'', path_name zp])"
      and r: "route_failed input_dir zp fs = Inr fs'"
    from r obtain fs1 where mk: "path_mkdir False True fs (input_dir @ [''_failed'']) = Inr fs1"
      by (auto simp: route_failed_def Let_def split: sum.splits)
    from R [OF w z nd mk] obtain fs2 where
      mv: "shutil_move fs1 zp (input_dir @ [''_failed''] @ [path_name zp]) = Inr fs2"
      and m: "input_dir @ [''_failed'', path_name zp] \<in> set (discover fs2 input_dir)" by blast
    have "fs' = fs2" using r mk mv by (simp add: route_failed_def Let_def)
    then show "input_dir @ [''_failed'', path_name zp] \<in> set (discover fs' input_dir)"
      using m by simp
  qed
  have D: "wf_fs fs \<and> zp \<in> set (discover fs input_dir) \<and>
    \<not> fs_is_dir fs (input_dir @ [''_processed'', path_name zp]) \<and>
    route_processed input_dir zp fs = (Inr (), fs') \<longrightarrow>
      input_dir @ [''_processed'', path_name zp] \<in> set (discover fs' input_dir)"
  proof (intro impI, elim conjE)
    assume w: "wf_fs fs" and z: "zp \<in> set (discover fs input_dir)"
      and nd: "\<not> fs_is_dir fs (input_dir @ [''_processed'', path_name zp])"
      and r: "route_processed input_dir zp fs = (Inr (), fs')"
    from r obtain fs1 where mk: "path_mkdir False True fs (input_dir @ [''_processed'']) = Inr fs1"
      by (auto simp: route_processed_def Let_def split: sum.splits)
    from R [OF w z nd mk] obtain fs2 where
      mv: "shutil_move fs1 zp (input_dir @ [''_processed''] @ [path_name zp]) = Inr fs2"
      and m: "input_dir @ [''_processed'', path_name zp] \<in> set (discover fs2 input_dir)" by blast
    have "fs' = fs2" using r mk mv by (simp add: route_processed_def Let_def)
    then show "input_dir @ [''_processed'', path_name zp] \<in> set (discover fs' input_dir)"
      using m by simp
  qed
  show ?thesis using A B C D by blast
qed


theorem discover_recursive_witness:
  "[''in'', ''deep'', ''x'', ''b.zip''] \<in> set (discover
      [([''in''], Dir), ([''in'', ''a.ZIP''], File (FData None None)), ([''in'', ''deep''], Dir),
       ([''in'', ''deep'', ''x''], Dir), ([''in'', ''deep'', ''x'', ''b.zip''], File (FData None None))]
      [''in'']) \<and>
   route_failed [''in''] [''in'', ''a.ZIP'']
      [([''in''], Dir), ([''in'', ''a.ZIP''], File (FData None None)), ([''in'', ''deep''], Dir),
       ([''in'', ''deep'', ''x''], Dir), ([''in'', ''deep'', ''x'', ''b.zip''], File (FData None None))]
     = Inr [([''in''], Dir), ([''in'', ''deep''], Dir), ([''in'', ''deep'', ''x''], Dir),
            ([''in'', ''deep'', ''x'', ''b.zip''], File (FData None None)),
            ([''in'', ''_failed''], Dir), ([''in'', ''_failed'', ''a.ZIP''], File (FData None None))] \<and>
   [''in'', ''_failed'', ''a.ZIP''] \<in> set (discover
      [([''in''], Dir), ([''in'', ''deep''], Dir), ([''in'', ''deep'', ''x''], Dir),
       ([''in'', ''deep'', ''x'', ''b.zip''], File (FData None None)),
       ([''in'', ''_failed''], Dir), ([''in'', ''_failed'', ''a.ZIP''], File (FData None None))]
      [''in''])"
proof -
  define fs :: filesys where "fs =
      [([''in''], Dir), ([''in'', ''a.ZIP''], File (FData None None)), ([''in'', ''deep''], Dir),
       ([''in'', ''deep'', ''x''], Dir), ([''in'', ''deep'', ''x'', ''b.zip''], File (FData None None))]"
  define fs' :: filesys where "fs' =
      [([''in''], Dir), ([''in'', ''deep''], Dir), ([''in'', ''deep'', ''x''], Dir),
       ([''in'', ''deep'', ''x'', ''b.zip''], File (FData None None)),
       ([''in'', ''_failed''], Dir), ([''in'', ''_failed'', ''a.ZIP''], File (FData None None))]"
  have b: "fs_is_dir fs [''in''] \<and>
      ([''in''] @ ''deep'' # [''x''] @ [''b.zip''], File (FData None None)) \<in> set fs \<and>
      endswith (py_lower ''b.zip'') ''.zip''"
    unfolding fs_def by code_simp
  have c: "wf_fs fs \<and> [''in'', ''a.ZIP''] \<in> set (discover fs [''in'']) \<and>
      \<not> fs_is_dir fs ([''in''] @ [''_failed'', path_name [''in'', ''a.ZIP'']])"
    unfolding fs_def by code_simp
  have r: "route_failed [''in''] [''in'', ''a.ZIP''] fs = Inr fs'"
    unfolding fs_def fs'_def by code_simp
  have n: "path_name [''in'', ''a.ZIP''] = ''a.ZIP''" by code_simp
  have 1: "[''in''] @ ''deep'' # [''x''] @ [''b.zip''] \<in> set (discover fs [''in''])"
    using discover_recursive [where fs = fs and input_dir = "[''in'']" and sub = "''deep''"
        and rest = "[''x'']" and n = "''b.zip''" and d = "FData None None"] b by blast
  have 2: "[''in''] @ [''_failed'', path_name [''in'', ''a.ZIP'']] \<in> set (discover fs' [''in''])"
    using discover_recursive [where fs = fs and input_dir = "[''in'']" and zp = "[''in'', ''a.ZIP'']"
        and fs' = fs'] c r by blast
  show ?thesis using 1 2 r unfolding n fs_def fs'_def by simp
qed

section \<open>Closed filesystems\<close>

lemma wf_fs_closed: "wf_fs fs \<Longrightarrow> closed_fs fs"
  using wf_fs_parent by (simp add: closed_fs_def)

lemma closed_prefix:
  assumes "closed_fs fs"
  shows "fs_exists fs q \<Longrightarrow> prefix p q \<Longrightarrow> p \<noteq> q \<Longrightarrow> fs_is_dir fs p"
proof (induction q rule: rev_induct)
  case Nil
  then show ?case by simp
next
  case (snoc x xs)
  have d: "fs_is_dir fs xs" using assms snoc.prems(1) by (auto simp: closed_fs_def)
  have "prefix p xs" using snoc.prems(2,3) by (auto simp: prefix_snoc)
  show ?case
  proof (cases "p = xs")
    case True
    then show ?thesis using d by simp
  next
    case False
    have "fs_exists fs xs" using d by (simp add: fs_is_dir_def fs_exists_def)
    then show ?thesis using snoc.IH \<open>prefix p xs\<close> False by blast
  qed
qed

lemma closed_nothing_under:
  assumes "closed_fs fs" "\<not> fs_exists fs p" "prefix p q"
  shows "node_at fs q = None"
proof (rule ccontr)
  assume "node_at fs q \<noteq> None"
  then have e: "fs_exists fs q" by (simp add: fs_exists_def)
  show False
  proof (cases "p = q")
    case True
    then show ?thesis using e assms(2) by simp
  next
    case False
    then have "fs_is_dir fs p" using closed_prefix [OF assms(1) e assms(3)] by simp
    then show ?thesis using assms(2) by (simp add: fs_is_dir_def fs_exists_def)
  qed
qed

lemma closed_file_no_child:
  assumes "closed_fs fs" "node_at fs p = Some (File d)" "prefix p q" "p \<noteq> q"
  shows "node_at fs q = None"
proof (rule ccontr)
  assume "node_at fs q \<noteq> None"
  then have "fs_exists fs q" by (simp add: fs_exists_def)
  then have "fs_is_dir fs p" using closed_prefix [OF assms(1) _ assms(3,4)] by blast
  then show False using assms(2) by (simp add: fs_is_dir_def)
qed

lemma closed_os_mkdir:
  assumes "closed_fs fs" "os_mkdir fs p = Inr fs'"
  shows "closed_fs fs'"
proof -
  have n: "\<And>q. node_at fs' q = (if q = p then Some Dir else node_at fs q)"
    using os_mkdir_node [OF assms(2)] .
  have par: "fs_is_dir fs (butlast p)" using os_mkdir_Inr [OF assms(2)] by simp
  show ?thesis unfolding closed_fs_def
  proof (intro allI impI)
    fix q assume q: "q \<noteq> []" "fs_exists fs' q"
    show "fs_is_dir fs' (butlast q)"
    proof (cases "q = p")
      case True
      then show ?thesis using par n by (simp add: fs_is_dir_def)
    next
      case False
      then have "fs_exists fs q" using q(2) n by (simp add: fs_exists_def)
      then have "fs_is_dir fs (butlast q)" using assms(1) q(1) by (simp add: closed_fs_def)
      then show ?thesis using n by (simp add: fs_is_dir_def)
    qed
  qed
qed

lemma closed_path_mkdir:
  "path_mkdir parents exist_ok fs p = Inr fs' \<Longrightarrow> closed_fs fs \<Longrightarrow> closed_fs fs'"
proof (induction parents exist_ok fs p arbitrary: fs' rule: path_mkdir.induct)
  case (1 parents exist_ok fs p)
  show ?case
  proof (cases "os_mkdir fs p")
    case (Inr f)
    then have "fs' = f" using "1.prems" by (simp add: path_mkdir.simps [of parents exist_ok fs p])
    then show ?thesis using Inr closed_os_mkdir "1.prems"(2) by simp
  next
    case (Inl e)
    show ?thesis
    proof (cases "e = FileNotFoundError")
      case True
      have np: "\<not> (\<not> parents \<or> p = [])"
        using "1.prems" Inl True
        by (auto simp: path_mkdir.simps [of parents exist_ok fs p] split: if_splits)
      from "1.prems" Inl True np obtain fs1 where
        s1: "path_mkdir True True fs (butlast p) = Inr fs1" and
        s2: "path_mkdir False exist_ok fs1 p = Inr fs'"
        by (auto simp: path_mkdir.simps [of parents exist_ok fs p] split: sum.splits if_splits)
      have "closed_fs fs1" using "1.IH"(1) [OF Inl True np s1 "1.prems"(2)] .
      then show ?thesis using "1.IH"(2) [OF Inl True np s1 s2] by simp
    next
      case False
      then have "fs' = fs"
        using "1.prems" Inl by (auto simp: path_mkdir.simps [of parents exist_ok fs p] split: if_splits)
      then show ?thesis using "1.prems"(2) by simp
    qed
  qed
qed

lemma closed_write_file:
  assumes "closed_fs fs" "write_file fs p d = Inr fs'"
  shows "closed_fs fs'"
proof -
  have n: "\<And>q. node_at fs' q = (if q = p then Some (File d) else node_at fs q)"
    using write_file_node [OF assms(2)] .
  have nd: "node_at fs p \<noteq> Some Dir" and par: "node_at fs (butlast p) = Some Dir"
    using assms(2) by (auto simp: write_file_def split: option.splits node.splits)
  have pp: "butlast p \<noteq> p" using nd par by auto
  show ?thesis unfolding closed_fs_def
  proof (intro allI impI)
    fix q assume q: "q \<noteq> []" "fs_exists fs' q"
    show "fs_is_dir fs' (butlast q)"
    proof (cases "q = p")
      case True
      then show ?thesis using par n pp by (simp add: fs_is_dir_def)
    next
      case False
      then have "fs_exists fs q" using q(2) n by (simp add: fs_exists_def)
      then have b: "node_at fs (butlast q) = Some Dir"
        using assms(1) q(1) by (simp add: closed_fs_def fs_is_dir_def)
      then have "butlast q \<noteq> p" using nd by auto
      then show ?thesis using n b by (simp add: fs_is_dir_def)
    qed
  qed
qed

lemma closed_remove_tree:
  assumes "closed_fs fs"
  shows "closed_fs (remove_tree fs p)"
  unfolding closed_fs_def
proof (intro allI impI)
  fix q assume q: "q \<noteq> []" "fs_exists (remove_tree fs p) q"
  have np: "\<not> prefix p q" and e: "fs_exists fs q"
    using q by (auto simp: fs_exists_def node_at_remove_tree split: if_splits)
  have b: "fs_is_dir fs (butlast q)" using assms q(1) e by (simp add: closed_fs_def)
  have "\<not> prefix p (butlast q)"
    using np prefix_order.trans [OF _ prefixeq_butlast [of q]] by blast
  then show "fs_is_dir (remove_tree fs p) (butlast q)"
    using b by (simp add: fs_is_dir_def node_at_remove_tree node_at_Nil)
qed

lemma closed_shutil_move:
  assumes "closed_fs fs" "shutil_move fs src dst = Inr fs'"
  shows "closed_fs fs'"
proof -
  define r where "r = (if fs_is_dir fs dst then dst @ [path_name src] else dst)"
  from shutil_move_node [OF assms(2)] obtain d where
    s: "node_at fs src = Some (File d)" and par: "fs_is_dir fs (butlast r)" and rne: "r \<noteq> []"
    and n: "\<And>q. node_at fs' q = (if q = r then Some (File d) else if q = src then None else node_at fs q)"
    unfolding r_def [symmetric] Let_def by blast
  have rd: "\<not> fs_is_dir fs r"
  proof (cases "fs_is_dir fs dst")
    case True
    then have "\<not> fs_exists fs (dst @ [path_name src])"
      using assms(2) unfolding shutil_move_def Let_def by (auto split: if_splits)
    then show ?thesis using True by (simp add: r_def fs_is_dir_def fs_exists_def)
  next
    case False
    then show ?thesis by (simp add: r_def)
  qed
  show ?thesis unfolding closed_fs_def
  proof (intro allI impI)
    fix q assume q: "q \<noteq> []" "fs_exists fs' q"
    have "fs_is_dir fs (butlast q)"
    proof (cases "q = r")
      case True
      then show ?thesis using par by simp
    next
      case False
      then have "fs_exists fs q" using q(2) n by (auto simp: fs_exists_def split: if_splits)
      then show ?thesis using assms(1) q(1) by (simp add: closed_fs_def)
    qed
    moreover from this have "butlast q \<noteq> r" "butlast q \<noteq> src"
      using rd s by (auto simp: fs_is_dir_def)
    ultimately show "fs_is_dir fs' (butlast q)" using n by (simp add: fs_is_dir_def)
  qed
qed

section \<open>What extraction touches\<close>

lemma path_mkdir_under:
  assumes c: "closed_fs fs" and t: "fs_exists fs t" and pt: "prefix t p"
    and mk: "path_mkdir parents exist_ok fs p = Inr fs'"
  shows "agree (\<lambda>q. \<not> prefix t q) fs fs'"
  unfolding agree_def
proof (intro allI impI)
  fix q assume nq: "\<not> prefix t q"
  have md: "made_dirs fs fs' p" using path_mkdir_made [OF mk] .
  show "node_at fs' q = node_at fs q"
  proof (cases "fs_exists fs q")
    case True
    then show ?thesis using md by (simp add: made_dirs_def agree_def)
  next
    case False
    then have "node_at fs' q = None \<or> (node_at fs' q = Some Dir \<and> prefix q p)"
      using md unfolding made_dirs_def by blast
    moreover have "\<not> prefix q p"
    proof
      assume "prefix q p"
      then have "prefix q t \<or> prefix t q" using pt prefix_same_cases by blast
      then have qt: "prefix q t" using nq by blast
      have "q \<noteq> t" using nq by auto
      then have "fs_is_dir fs q" using closed_prefix [OF c t qt] by simp
      then show False using False by (simp add: fs_is_dir_def fs_exists_def)
    qed
    ultimately show ?thesis using False by (auto simp: fs_exists_def)
  qed
qed

lemma path_mkdir_keeps_dir:
  assumes "path_mkdir parents exist_ok fs p = Inr fs'" "fs_is_dir fs t"
  shows "fs_is_dir fs' t"
  using path_mkdir_made [OF assms(1)] assms(2)
  by (simp add: made_dirs_def agree_def fs_is_dir_def fs_exists_def)

lemma write_member_frame:
  assumes s1: "closed_fs fs1 \<and> fs_is_dir fs1 t \<and> agree (\<lambda>q. \<not> prefix t q) fs fs1"
    and wr: "write_file fs1 (t @ x) d = Inr fs2"
  shows "closed_fs fs2 \<and> fs_is_dir fs2 t \<and> agree (\<lambda>q. \<not> prefix t q) fs fs2"
proof -
  define target where "target = t @ x"
  have wr': "write_file fs1 target d = Inr fs2" using wr by (simp add: target_def)
  have n: "\<And>q. node_at fs2 q = (if q = target then Some (File d) else node_at fs1 q)"
    using write_file_node [OF wr'] .
  have "node_at fs1 target \<noteq> Some Dir"
    using wr' by (auto simp: write_file_def split: option.splits node.splits)
  then have tt: "target \<noteq> t" using s1 by (auto simp: fs_is_dir_def)
  have "prefix t target" by (simp add: target_def)
  then have "agree (\<lambda>q. \<not> prefix t q) fs1 fs2" using n by (auto simp: agree_def)
  then have "agree (\<lambda>q. \<not> prefix t q) fs fs2" using s1 agree_trans by blast
  moreover have "fs_is_dir fs2 t" using s1 n tt by (simp add: fs_is_dir_def)
  moreover have "closed_fs fs2" using closed_write_file [OF _ wr'] s1 by simp
  ultimately show ?thesis by simp
qed

lemma extract_member_frame:
  assumes c: "closed_fs fs" and t: "fs_is_dir fs t" and e: "extract_member fs t m = (r, fs')"
  shows "closed_fs fs' \<and> fs_is_dir fs' t \<and> agree (\<lambda>q. \<not> prefix t q) fs fs'"
proof -
  define target where "target = t @ fst m"
  define upper where "upper = butlast target"
  have te: "fs_exists fs t" using t by (simp add: fs_is_dir_def fs_exists_def)
  have e': "(case (if \<not> fs_exists fs upper then path_mkdir True False fs upper else Inr fs) of
        Inl e \<Rightarrow> (Inl e, fs)
      | Inr fs1 \<Rightarrow>
          (case snd m of
             Unopenable k \<Rightarrow> (Inl (open_exn k), fs1)
           | Intact d \<Rightarrow>
               (case write_file fs1 target d of
                  Inl e \<Rightarrow> (Inl e, fs1)
                | Inr fs2 \<Rightarrow> (Inr (), fs2))
           | Broken k d \<Rightarrow>
               (case write_file fs1 target d of
                  Inl e \<Rightarrow> (Inl e, fs1)
                | Inr fs2 \<Rightarrow> (Inl (read_exn k), fs2)))) = (r, fs')"
    using e unfolding extract_member_def Let_def target_def upper_def by simp
  show ?thesis
  proof (cases "if \<not> fs_exists fs upper then path_mkdir True False fs upper else Inr fs")
    case (Inl x)
    then have "fs' = fs" using e' by simp
    then show ?thesis using c t agree_refl by simp
  next
    case (Inr fs1)
    have s1: "closed_fs fs1 \<and> fs_is_dir fs1 t \<and> agree (\<lambda>q. \<not> prefix t q) fs fs1"
    proof (cases "fs_exists fs upper")
      case True
      then have "fs1 = fs" using Inr by simp
      then show ?thesis using c t agree_refl by simp
    next
      case False
      then have mk: "path_mkdir True False fs upper = Inr fs1" using Inr by simp
      have "fst m \<noteq> []"
      proof
        assume "fst m = []"
        then have u: "upper = butlast t" by (simp add: upper_def target_def)
        have "fs_exists fs (butlast t)"
        proof (cases "t = []")
          case True
          then show ?thesis by (simp add: fs_exists_Nil)
        next
          case F: False
          then have "fs_is_dir fs (butlast t)" using c te by (simp add: closed_fs_def)
          then show ?thesis by (simp add: fs_is_dir_def fs_exists_def)
        qed
        then show False using False u by simp
      qed
      then have "prefix t upper" by (simp add: upper_def target_def butlast_append)
      then have "agree (\<lambda>q. \<not> prefix t q) fs fs1" using path_mkdir_under [OF c te _ mk] by simp
      then show ?thesis using closed_path_mkdir [OF mk c] path_mkdir_keeps_dir [OF mk t] by simp
    qed
    show ?thesis
    proof (cases "snd m")
      case (Unopenable k)
      then have "fs' = fs1" using e' Inr by simp
      then show ?thesis using s1 by simp
    next
      case (Intact d)
      show ?thesis
      proof (cases "write_file fs1 target d")
        case (Inl x)
        then have "fs' = fs1" using e' Inr Intact by simp
        then show ?thesis using s1 by simp
      next
        case wr: (Inr fs2)
        then have f: "fs' = fs2" using e' Inr Intact by simp
        show ?thesis using write_member_frame [OF s1] wr f by (simp add: target_def)
      qed
    next
      case (Broken k d)
      show ?thesis
      proof (cases "write_file fs1 target d")
        case (Inl x)
        then have "fs' = fs1" using e' Inr Broken by simp
        then show ?thesis using s1 by simp
      next
        case wr: (Inr fs2)
        then have f: "fs' = fs2" using e' Inr Broken by simp
        show ?thesis using write_member_frame [OF s1] wr f by (simp add: target_def)
      qed
    qed
  qed
qed

lemma extractall_frame:
  "extractall fs t ms = (r, fs') \<Longrightarrow> closed_fs fs \<Longrightarrow> fs_is_dir fs t \<Longrightarrow>
   closed_fs fs' \<and> fs_is_dir fs' t \<and> agree (\<lambda>q. \<not> prefix t q) fs fs'"
proof (induction ms arbitrary: fs)
  case Nil
  then show ?case using agree_refl by simp
next
  case (Cons m ms)
  obtain r1 fs1 where m: "extract_member fs t m = (r1, fs1)" by (cases "extract_member fs t m")
  have s1: "closed_fs fs1 \<and> fs_is_dir fs1 t \<and> agree (\<lambda>q. \<not> prefix t q) fs fs1"
    using extract_member_frame [OF Cons.prems(2,3) m] .
  show ?case
  proof (cases r1)
    case (Inl e)
    then have "fs' = fs1" using Cons.prems(1) m by simp
    then show ?thesis using s1 by simp
  next
    case (Inr u)
    then have "extractall fs1 t ms = (r, fs')" using Cons.prems(1) m by simp
    then have "closed_fs fs' \<and> fs_is_dir fs' t \<and> agree (\<lambda>q. \<not> prefix t q) fs1 fs'"
      using Cons.IH s1 by blast
    then show ?thesis using s1 agree_trans by blast
  qed
qed

lemma extract_zip_frame:
  assumes "extract_zip fs zp t = (r, fs')" "closed_fs fs" "fs_is_dir fs t"
  shows "closed_fs fs' \<and> fs_is_dir fs' t \<and> agree (\<lambda>q. \<not> prefix t q) fs fs'"
proof (cases "\<exists>d ms. node_at fs zp = Some (File d) \<and> archive d = Some ms")
  case True
  then obtain d ms where "node_at fs zp = Some (File d)" "archive d = Some ms" by blast
  then have "\<exists>r'. extractall fs t ms = (r', fs')" using assms(1)
    by (cases "extractall fs t ms") (auto simp: extract_zip_def split: sum.splits)
  then show ?thesis using extractall_frame assms(2,3) by blast
next
  case False
  then have "fs' = fs" using assms(1)
    by (auto simp: extract_zip_def split: option.splits node.splits)
  then show ?thesis using assms(2,3) agree_refl by simp
qed

section \<open>What relocation touches\<close>

lemma free_dest_loop_free:
  "prefix t c \<Longrightarrow>
   \<not> fs_exists fs (free_dest_loop fs t s x c k) \<and> prefix t (free_dest_loop fs t s x c k)"
proof (induction fs t s x c k rule: free_dest_loop.induct)
  case (1 fs t s x c k)
  show ?case
  proof (cases "fs_exists fs c")
    case False
    then show ?thesis using "1.prems" by (simp add: free_dest_loop.simps [of fs t s x c k])
  next
    case True
    have "prefix t (t @ [s @ ''_'' @ str_of_nat k @ x])" by simp
    then show ?thesis using "1.IH" [OF True] True
      by (simp add: free_dest_loop.simps [of fs t s x c k])
  qed
qed

lemma move_one_ok:
  assumes c: "closed_fs fs" and d: "fs_is_dir fs target" and s: "prefix t src"
    and df: "\<not> fs_exists fs dest" and dp: "prefix target dest"
    and mv: "shutil_move fs src dest = Inr fs'"
  shows "moved_ok t target fs fs'"
proof -
  have nd: "\<not> fs_is_dir fs dest" using df by (simp add: fs_is_dir_def fs_exists_def)
  from shutil_move_node [OF mv] nd obtain x where
    sx: "node_at fs src = Some (File x)"
    and n: "\<And>q. node_at fs' q = (if q = dest then Some (File x) else if q = src then None else node_at fs q)"
    by (auto simp: Let_def)
  have "target \<noteq> dest" using d df by (auto simp: fs_is_dir_def fs_exists_def)
  moreover have "target \<noteq> src" using d sx by (auto simp: fs_is_dir_def)
  ultimately have "fs_is_dir fs' target" using d n by (simp add: fs_is_dir_def)
  moreover have "agree (\<lambda>q. \<not> prefix t q \<and> \<not> prefix target q) fs fs'"
    using n s dp by (auto simp: agree_def)
  ultimately show ?thesis using closed_shutil_move [OF c mv] by (simp add: moved_ok_def)
qed

lemma moved_ok_trans: "moved_ok t target fs fs1 \<Longrightarrow> moved_ok t target fs1 fs2 \<Longrightarrow> moved_ok t target fs fs2"
  using agree_trans by (auto simp: moved_ok_def)

lemma moved_ok_refl: "closed_fs fs \<Longrightarrow> fs_is_dir fs target \<Longrightarrow> moved_ok t target fs fs"
  by (simp add: moved_ok_def agree_refl)

lemma move_files_step:
  assumes "slugify (path_stem src) = Some slug"
    and "dest = free_dest_loop fs target (rsplit_dot_head (slug @ py_lower (path_suffix src)))
        (py_lower (path_suffix src)) (target @ [slug @ py_lower (path_suffix src)]) 1"
  shows "move_files (src # rest) target preview moved fs =
     (case shutil_move fs src dest of
        Inl e \<Rightarrow> (Inl e, fs)
      | Inr fs1 \<Rightarrow>
          move_files rest target preview
            (if src = preview \<or> path_name src = path_name preview
             then Some (path_name dest) else moved) fs1)"
  unfolding assms(2) by (simp only: move_files.simps assms(1) option.case Let_def)

lemma move_files_ok:
  "move_files files target preview moved fs = (r, fs') \<Longrightarrow> closed_fs fs \<Longrightarrow>
   fs_is_dir fs target \<Longrightarrow> \<forall>src\<in>set files. prefix t src \<Longrightarrow> moved_ok t target fs fs'"
proof (induction files arbitrary: moved fs)
  case Nil
  then show ?case by (simp add: moved_ok_refl)
next
  case (Cons src rest)
  show ?case
  proof (cases "slugify (path_stem src)")
    case None
    then have "fs' = fs" using Cons.prems(1) by simp
    then show ?thesis using Cons.prems by (simp add: moved_ok_refl)
  next
    case (Some slug)
    define dest where "dest = free_dest_loop fs target (rsplit_dot_head (slug @ py_lower (path_suffix src)))
        (py_lower (path_suffix src)) (target @ [slug @ py_lower (path_suffix src)]) 1"
    have dfree: "\<not> fs_exists fs dest \<and> prefix target dest"
      unfolding dest_def by (rule free_dest_loop_free) simp
    show ?thesis
    proof (cases "shutil_move fs src dest")
      case (Inl e)
      then have "fs' = fs" using Cons.prems(1) unfolding move_files_step [OF Some dest_def] by simp
      then show ?thesis using Cons.prems by (simp add: moved_ok_refl)
    next
      case (Inr fs1)
      have m1: "moved_ok t target fs fs1"
        using move_one_ok [OF Cons.prems(2,3) _ _ _ Inr] dfree Cons.prems(4) by simp
      have "move_files rest target preview
          (if src = preview \<or> path_name src = path_name preview then Some (path_name dest) else moved)
          fs1 = (r, fs')"
        using Cons.prems(1) Inr unfolding move_files_step [OF Some dest_def] by simp
      then have "moved_ok t target fs1 fs'"
        using Cons.IH m1 Cons.prems(4) by (simp add: moved_ok_def)
      then show ?thesis using m1 moved_ok_trans by blast
    qed
  qed
qed

lemma remove_if_exists_dir:
  "fs_is_dir fs target \<Longrightarrow> remove_if_exists fs target = remove_tree fs target"
  by (simp add: remove_if_exists_def shutil_rmtree_def fs_is_dir_def fs_exists_def)

lemma relocate_body_ok:
  assumes "relocate_body files target preview geom parsed fs = (r, fs')"
    "closed_fs fs" "fs_is_dir fs target" "\<forall>src\<in>set files. prefix t src"
  shows "moved_ok t target fs fs' \<and> (\<forall>v. r = Inr v \<longrightarrow> fst v = target)"
proof -
  obtain r1 fs1 where m: "move_files files target preview None fs = (r1, fs1)"
    by (cases "move_files files target preview None fs")
  have ok: "moved_ok t target fs fs1" using move_files_ok [OF m assms(2,3,4)] .
  have "fs' = fs1 \<and> (\<forall>v. r = Inr v \<longrightarrow> fst v = target)"
    using assms(1) m by (auto simp: relocate_body_def split: sum.splits if_splits)
  then show ?thesis using ok by simp
qed

lemma relocate_ok:
  assumes rl: "relocate files target preview geom parsed fs = (r, fs')"
    and c: "closed_fs fs" and d: "fs_is_dir fs target" and s: "\<forall>src\<in>set files. prefix t src"
  shows "closed_fs fs' \<and> agree (\<lambda>q. \<not> prefix t q \<and> \<not> prefix target q) fs fs' \<and>
         (case r of
            Inl e \<Rightarrow> \<forall>q. prefix target q \<and> q \<noteq> [] \<longrightarrow> node_at fs' q = None
          | Inr v \<Rightarrow> fst v = target \<and> fs_is_dir fs' target)"
proof -
  obtain r1 fs1 where b: "relocate_body files target preview geom parsed fs = (r1, fs1)"
    by (cases "relocate_body files target preview geom parsed fs")
  have ok: "moved_ok t target fs fs1" and tg: "\<forall>v. r1 = Inr v \<longrightarrow> fst v = target"
    using relocate_body_ok [OF b c d s] by simp_all
  show ?thesis
  proof (cases r1)
    case (Inr v)
    then have "r = Inr v" "fs' = fs1" using rl b by (simp_all add: relocate_def)
    then show ?thesis using ok tg Inr by (simp add: moved_ok_def)
  next
    case (Inl e)
    then have r: "r = Inl e" and f: "fs' = remove_tree fs1 target"
      using rl b ok by (simp_all add: relocate_def moved_ok_def remove_if_exists_dir)
    have "agree (\<lambda>q. \<not> prefix t q \<and> \<not> prefix target q) fs1 fs'"
      unfolding f by (simp add: agree_def node_at_remove_tree node_at_Nil)
    then have "agree (\<lambda>q. \<not> prefix t q \<and> \<not> prefix target q) fs fs'"
      using ok agree_trans unfolding moved_ok_def by blast
    moreover have "closed_fs fs'" unfolding f using ok closed_remove_tree by (simp add: moved_ok_def)
    moreover have "\<forall>q. prefix target q \<and> q \<noteq> [] \<longrightarrow> node_at fs' q = None"
      unfolding f by (simp add: node_at_remove_tree)
    ultimately show ?thesis using r by simp
  qed
qed


lemma move_files_keeps_dir:
  "move_files files target preview moved fs = (r, fs') \<Longrightarrow> fs_is_dir fs target \<Longrightarrow>
   fs_is_dir fs' target"
proof (induction files arbitrary: moved fs)
  case Nil
  then show ?case by simp
next
  case (Cons src rest)
  show ?case
  proof (cases "slugify (path_stem src)")
    case None
    then have "fs' = fs" using Cons.prems(1) by simp
    then show ?thesis using Cons.prems by simp
  next
    case (Some slug)
    define dest where "dest = free_dest_loop fs target (rsplit_dot_head (slug @ py_lower (path_suffix src)))
        (py_lower (path_suffix src)) (target @ [slug @ py_lower (path_suffix src)]) 1"
    have df: "\<not> fs_exists fs dest"
      unfolding dest_def using free_dest_loop_free [of target] by simp
    show ?thesis
    proof (cases "shutil_move fs src dest")
      case (Inl e)
      then have "fs' = fs" using Cons.prems(1) unfolding move_files_step [OF Some dest_def] by simp
      then show ?thesis using Cons.prems by simp
    next
      case (Inr fs1)
      have nd: "\<not> fs_is_dir fs dest" using df by (simp add: fs_is_dir_def fs_exists_def)
      from shutil_move_node [OF Inr] nd obtain x where
        sx: "node_at fs src = Some (File x)"
        and n: "\<And>q. node_at fs1 q = (if q = dest then Some (File x) else if q = src then None else node_at fs q)"
        by (auto simp: Let_def)
      have "target \<noteq> dest" using Cons.prems(2) df by (auto simp: fs_is_dir_def fs_exists_def)
      moreover have "target \<noteq> src" using Cons.prems(2) sx by (auto simp: fs_is_dir_def)
      ultimately have d1: "fs_is_dir fs1 target" using Cons.prems(2) n by (simp add: fs_is_dir_def)
      have "move_files rest target preview
          (if src = preview \<or> path_name src = path_name preview then Some (path_name dest) else moved)
          fs1 = (r, fs')"
        using Cons.prems(1) Inr unfolding move_files_step [OF Some dest_def] by simp
      then show ?thesis using Cons.IH d1 by blast
    qed
  qed
qed

lemma move_files_no_match:
  "move_files files target preview moved fs = (Inr m, fs') \<Longrightarrow>
   \<forall>src\<in>set files. src \<noteq> preview \<and> path_name src \<noteq> path_name preview \<Longrightarrow> m = moved"
proof (induction files arbitrary: fs)
  case Nil
  then show ?case by simp
next
  case (Cons src rest)
  show ?case
  proof (cases "slugify (path_stem src)")
    case None
    then show ?thesis using Cons.prems(1) by simp
  next
    case (Some slug)
    define dest where "dest = free_dest_loop fs target (rsplit_dot_head (slug @ py_lower (path_suffix src)))
        (py_lower (path_suffix src)) (target @ [slug @ py_lower (path_suffix src)]) 1"
    show ?thesis
    proof (cases "shutil_move fs src dest")
      case (Inl e)
      then show ?thesis using Cons.prems(1) unfolding move_files_step [OF Some dest_def] by simp
    next
      case (Inr fs1)
      have "\<not> (src = preview \<or> path_name src = path_name preview)" using Cons.prems(2) by simp
      then have "move_files rest target preview moved fs1 = (Inr m, fs')"
        using Cons.prems(1) Inr unfolding move_files_step [OF Some dest_def] by simp
      then show ?thesis using Cons.IH Cons.prems(2) by simp
    qed
  qed
qed

lemma relocate_move_error:
  assumes "move_files files target preview None fs = (Inl e, fs1)"
  shows "relocate files target preview geom parsed fs = (Inl e, remove_if_exists fs1 target)"
  using assms by (simp add: relocate_def relocate_body_def)

lemma relocate_preview_lost:
  assumes "move_files files target preview None fs = (Inr m, fs1)"
    and "\<forall>src\<in>set files. src \<noteq> preview \<and> path_name src \<noteq> path_name preview"
  shows "relocate files target preview geom parsed fs =
     (Inl (RuntimeError ''Failed to detect preview file after moving files.''),
      remove_if_exists fs1 target)"
proof -
  have "m = None" using move_files_no_match [OF assms] .
  then show ?thesis using assms(1) by (simp add: relocate_def relocate_body_def truthy_def)
qed

lemma relocate_failure_clean:
  assumes "fs_is_dir fs target" "target \<noteq> []"
    and "relocate files target preview geom parsed fs = (Inl e, fs')"
  shows "\<forall>q. prefix target q \<longrightarrow> \<not> fs_exists fs' q"
proof -
  obtain r1 fs1 where m: "move_files files target preview None fs = (r1, fs1)"
    by (cases "move_files files target preview None fs")
  have d1: "fs_is_dir fs1 target" using move_files_keeps_dir [OF m assms(1)] .
  have "fs' = remove_if_exists fs1 target"
    using assms(3) m by (auto simp: relocate_def relocate_body_def split: sum.splits if_splits)
  then have f: "fs' = remove_tree fs1 target" using d1 by (simp add: remove_if_exists_dir)
  show ?thesis
  proof (intro allI impI)
    fix q assume p: "prefix target q"
    then have "q \<noteq> []" using assms(2) by auto
    then show "\<not> fs_exists fs' q" using p by (simp add: f fs_exists_def node_at_remove_tree)
  qed
qed

text \<open>
  C2. When every file has been moved and none of them was the preview, by path or by
  name, the relocation raises the \<open>RuntimeError\<close> of the sanity check, from the state
  after the last move; an error of a move is raised as it is. Whatever error leaves the
  relocation of a target directory, the directory and everything under it are gone from
  the filesystem that the call leaves.
\<close>

theorem relocate_failure:
  "(move_files files target preview None fs = (Inr m, fs1) \<and>
    (\<forall>src\<in>set files. src \<noteq> preview \<and> path_name src \<noteq> path_name preview) \<longrightarrow>
      relocate files target preview geom parsed fs =
        (Inl (RuntimeError ''Failed to detect preview file after moving files.''),
         remove_if_exists fs1 target)) \<and>
   (move_files files target preview None fs = (Inl e, fs1) \<longrightarrow>
      relocate files target preview geom parsed fs = (Inl e, remove_if_exists fs1 target)) \<and>
   (fs_is_dir fs target \<and> target \<noteq> [] \<and>
    relocate files target preview geom parsed fs = (Inl e, fs') \<longrightarrow>
      (\<forall>q. prefix target q \<longrightarrow> \<not> fs_exists fs' q))"
  using relocate_preview_lost [of files target preview fs m fs1 geom parsed]
    relocate_move_error [of files target preview fs e fs1 geom parsed]
    relocate_failure_clean [of fs target files preview geom parsed e fs']
  by blast

theorem relocate_failure_witness:
  "relocate [[''t'', ''a.obj'']] [''out'', ''m''] [''t'', ''p.jpg''] [''t'', ''a.obj''] []
     [([''t''], Dir), ([''t'', ''a.obj''], File (FData None None)), ([''out''], Dir), ([''out'', ''m''], Dir)]
     = (Inl (RuntimeError ''Failed to detect preview file after moving files.''),
        [([''t''], Dir), ([''out''], Dir)]) \<and>
   \<not> fs_exists [([''t''], Dir), ([''out''], Dir)] [''out'', ''m''] \<and>
   \<not> fs_exists [([''t''], Dir), ([''out''], Dir)] [''out'', ''m'', ''a.obj'']"
proof -
  define fs :: filesys where "fs = [([''t''], Dir), ([''t'', ''a.obj''], File (FData None None)),
     ([''out''], Dir), ([''out'', ''m''], Dir)]"
  define fs1 :: filesys where "fs1 = [([''t''], Dir), ([''out''], Dir), ([''out'', ''m''], Dir),
     ([''out'', ''m'', ''a.obj''], File (FData None None))]"
  define fs' :: filesys where "fs' = [([''t''], Dir), ([''out''], Dir)]"
  have mv: "move_files [[''t'', ''a.obj'']] [''out'', ''m''] [''t'', ''p.jpg''] None fs = (Inr None, fs1)"
    unfolding fs_def fs1_def by code_simp
  have nm: "\<forall>src\<in>set [[''t'', ''a.obj'']]. src \<noteq> [''t'', ''p.jpg''] \<and>
      path_name src \<noteq> path_name [''t'', ''p.jpg'']"
    by (simp add: path_name_def)
  have rm: "remove_if_exists fs1 [''out'', ''m''] = fs'"
    unfolding fs1_def fs'_def by code_simp
  have d: "fs_is_dir fs [''out'', ''m''] \<and> [''out'', ''m''] \<noteq> []"
    unfolding fs_def by code_simp
  have r: "relocate [[''t'', ''a.obj'']] [''out'', ''m''] [''t'', ''p.jpg''] [''t'', ''a.obj''] [] fs
      = (Inl (RuntimeError ''Failed to detect preview file after moving files.''), fs')"
    using relocate_failure [where files = "[[''t'', ''a.obj'']]" and target = "[''out'', ''m'']"
        and preview = "[''t'', ''p.jpg'']" and fs = fs and m = None and ?fs1.0 = fs1
        and geom = "[''t'', ''a.obj'']" and parsed = "[]"] mv nm rm
    by simp
  have "\<forall>q. prefix [''out'', ''m''] q \<longrightarrow> \<not> fs_exists fs' q"
    using relocate_failure [where files = "[[''t'', ''a.obj'']]" and target = "[''out'', ''m'']"
        and preview = "[''t'', ''p.jpg'']" and fs = fs and fs' = fs'
        and e = "RuntimeError ''Failed to detect preview file after moving files.''"
        and geom = "[''t'', ''a.obj'']" and parsed = "[]"] d r
    by blast
  then have "\<not> fs_exists fs' [''out'', ''m''] \<and> \<not> fs_exists fs' [''out'', ''m'', ''a.obj'']"
    by simp
  then show ?thesis using r unfolding fs_def fs'_def by simp
qed

section \<open>What process_one_zip touches\<close>

lemma process_extracted_cases:
  assumes "process_extracted zp final t fs = (r, fs')"
  shows "(fs' = fs \<and> (\<exists>e. r = Inl e)) \<or>
     (\<exists>preview geom parsed name fs1.
        path_mkdir True False fs (ensure_unique_dir fs final name) = Inr fs1 \<and>
        relocate (rglob_files fs t) (ensure_unique_dir fs final name) preview geom parsed fs1 = (r, fs'))"
proof (cases "rglob_files fs t = []")
  case True
  then show ?thesis using assms by (auto simp: process_extracted_def)
next
  case ne: False
  show ?thesis
  proof (cases "select_metadata (rglob_files fs t) zp")
    case (Inl e)
    then show ?thesis using assms ne by (auto simp: process_extracted_def)
  next
    case mf: (Inr mf)
    show ?thesis
    proof (cases "try_open fs mf")
      case (Inl e)
      then show ?thesis using assms ne mf by (auto simp: process_extracted_def)
    next
      case tx: (Inr content)
      show ?thesis
      proof (cases "parse_metadata_from_text content")
        case (Inl e)
        then show ?thesis using assms ne mf tx by (auto simp: process_extracted_def)
      next
        case pa: (Inr parsed)
        show ?thesis
        proof (cases "resolve_geometry (rglob_files fs t) (map_of parsed ''GeometryFile'') zp")
          case (Inl e)
          then show ?thesis using assms ne mf tx pa by (auto simp: process_extracted_def)
        next
          case ge: (Inr geom)
          show ?thesis
          proof (cases "resolve_preview (rglob_files fs t) (map_of parsed ''PreviewFile'') zp")
            case (Inl e)
            then show ?thesis using assms ne mf tx pa ge by (auto simp: process_extracted_def)
          next
            case pr: (Inr preview)
            show ?thesis
            proof (cases "slugify (model_base_of (map_of parsed ''GeometryFile'')
                       (map_of parsed ''Description'') zp)")
              case None
              then show ?thesis using assms ne mf tx pa ge pr by (auto simp: process_extracted_def)
            next
              case sl: (Some name)
              show ?thesis
              proof (cases "path_mkdir True False fs (ensure_unique_dir fs final name)")
                case (Inl e)
                then show ?thesis using assms ne mf tx pa ge pr sl
                  by (auto simp: process_extracted_def)
              next
                case (Inr fs1)
                then have "relocate (rglob_files fs t) (ensure_unique_dir fs final name)
                    preview geom parsed fs1 = (r, fs')"
                  using assms ne mf tx pa ge pr sl by (simp add: process_extracted_def)
                then show ?thesis using Inr by blast
              qed
            qed
          qed
        qed
      qed
    qed
  qed
qed

lemma ensure_unique_dir_child:
  "\<not> fs_exists fs (ensure_unique_dir fs b n) \<and> (\<exists>x. ensure_unique_dir fs b n = b @ [x])"
  using ensure_unique_loop_spec [of fs b n "b @ [n]" 1]
  unfolding ensure_unique_dir_def by (cases "fs_exists fs (b @ [n])") auto

lemma path_mkdir_child:
  assumes "fs_is_dir fs b" "\<not> fs_exists fs (b @ [x])"
  shows "path_mkdir parents exist_ok fs (b @ [x]) = Inr (fs @ [(b @ [x], Dir)])"
proof -
  have "os_mkdir fs (b @ [x]) = Inr (fs @ [(b @ [x], Dir)])"
    using assms by (simp add: os_mkdir_def fs_is_dir_def)
  then show ?thesis by (simp add: path_mkdir.simps [of parents exist_ok fs "b @ [x]"])
qed

lemma rglob_files_under: "src \<in> set (rglob_files fs t) \<Longrightarrow> prefix t src"
  by (auto simp: rglob_files_def strict_prefix_def)

lemma process_extracted_ok:
  assumes pe: "process_extracted zp final t fs = (r, fs')"
    and c: "closed_fs fs" and d: "fs_is_dir fs final"
  shows "closed_fs fs' \<and>
     (case r of
        Inl e \<Rightarrow> agree (\<lambda>q. \<not> prefix t q) fs fs'
      | Inr v \<Rightarrow> \<not> fs_exists fs (fst v) \<and> (\<exists>x. fst v = final @ [x]) \<and> fs_is_dir fs' (fst v) \<and>
                 agree (\<lambda>q. \<not> prefix t q \<and> \<not> prefix (fst v) q) fs fs')"
proof -
  from process_extracted_cases [OF pe]
  consider (same) "fs' = fs" "\<exists>e. r = Inl e"
    | (moved) preview geom parsed name fs1 where
        "path_mkdir True False fs (ensure_unique_dir fs final name) = Inr fs1"
        "relocate (rglob_files fs t) (ensure_unique_dir fs final name) preview geom parsed fs1 = (r, fs')"
    by blast
  then show ?thesis
  proof cases
    case same
    then show ?thesis using c agree_refl by auto
  next
    case moved
    define target where "target = ensure_unique_dir fs final name"
    have nt: "\<not> fs_exists fs target" and ch: "\<exists>x. target = final @ [x]"
      using ensure_unique_dir_child [of fs final name] by (simp_all add: target_def)
    from ch obtain x where x: "target = final @ [x]" by blast
    have mk: "path_mkdir True False fs target = Inr (fs @ [(target, Dir)])"
      using path_mkdir_child [OF d] nt x by simp
    then have f1: "fs1 = fs @ [(target, Dir)]" using moved(1) by (simp add: target_def)
    have om: "os_mkdir fs target = Inr fs1"
      using d nt x f1 by (simp add: os_mkdir_def fs_is_dir_def)
    have c1: "closed_fs fs1" using closed_os_mkdir [OF c om] .
    have n1: "\<And>q. node_at fs1 q = (if q = target then Some Dir else node_at fs q)"
      using os_mkdir_node [OF om] .
    have d1: "fs_is_dir fs1 target" using n1 by (simp add: fs_is_dir_def)
    have a1: "agree (\<lambda>q. \<not> prefix t q \<and> \<not> prefix target q) fs fs1"
      using n1 by (auto simp: agree_def)
    have src: "\<forall>src\<in>set (rglob_files fs t). prefix t src" using rglob_files_under by blast
    have rl: "relocate (rglob_files fs t) target preview geom parsed fs1 = (r, fs')"
      using moved(2) by (simp add: target_def)
    have ok: "closed_fs fs' \<and> agree (\<lambda>q. \<not> prefix t q \<and> \<not> prefix target q) fs1 fs' \<and>
         (case r of
            Inl e \<Rightarrow> \<forall>q. prefix target q \<and> q \<noteq> [] \<longrightarrow> node_at fs' q = None
          | Inr v \<Rightarrow> fst v = target \<and> fs_is_dir fs' target)"
      using relocate_ok [OF rl c1 d1 src] .
    have a2: "agree (\<lambda>q. \<not> prefix t q \<and> \<not> prefix target q) fs fs'"
      using a1 ok agree_trans by blast
    show ?thesis
    proof (cases r)
      case (Inr v)
      then show ?thesis using ok nt ch a2 by auto
    next
      case (Inl e)
      have "agree (\<lambda>q. \<not> prefix t q) fs fs'"
        unfolding agree_def
      proof (intro allI impI)
        fix q assume q: "\<not> prefix t q"
        show "node_at fs' q = node_at fs q"
        proof (cases "prefix target q")
          case False
          then show ?thesis using a2 q by (simp add: agree_def)
        next
          case True
          then have "q \<noteq> []" using x by auto
          then have "node_at fs' q = None" using ok Inl True by simp
          moreover have "node_at fs q = None" using closed_nothing_under [OF c nt True] .
          ultimately show ?thesis by simp
        qed
      qed
      then show ?thesis using ok Inl by simp
    qed
  qed
qed


lemma process_one_zip_ok:
  assumes pz: "process_one_zip tmpname zp final tmp_base fs = (r, fs')"
    and c: "closed_fs fs" and d: "fs_is_dir fs final"
  shows "closed_fs fs' \<and>
     (case r of
        Inl e \<Rightarrow> \<forall>q. node_at fs' q = node_at fs q
      | Inr v \<Rightarrow> \<not> fs_exists fs (fst v) \<and> (\<exists>x. fst v = final @ [x]) \<and> fs_is_dir fs' (fst v) \<and>
                 agree (\<lambda>q. \<not> prefix (fst v) q) fs fs')"
proof (cases "os_mkdir fs (tmp_base @ [tmpname])")
  case (Inl e)
  then have "r = Inl e" "fs' = fs" using pz by (simp_all add: process_one_zip_def)
  then show ?thesis using c by simp
next
  case (Inr fs1)
  define t where "t = tmp_base @ [tmpname]"
  have om: "os_mkdir fs t = Inr fs1" using Inr by (simp add: t_def)
  have nt: "\<not> fs_exists fs t" using os_mkdir_Inr [OF om] by simp
  have n1: "\<And>q. node_at fs1 q = (if q = t then Some Dir else node_at fs q)"
    using os_mkdir_node [OF om] .
  have c1: "closed_fs fs1" using closed_os_mkdir [OF c om] .
  have d1: "fs_is_dir fs1 t" using n1 by (simp add: fs_is_dir_def)
  have under: "\<And>q. prefix t q \<Longrightarrow> node_at fs q = None"
    using closed_nothing_under [OF c nt] .
  have ntf: "\<not> prefix t final"
  proof
    assume "prefix t final"
    then have "node_at fs final = None" using under by simp
    then show False using d by (simp add: fs_is_dir_def)
  qed
  obtain re fs2 where ez: "extract_zip fs1 zp t = (re, fs2)" by (cases "extract_zip fs1 zp t")
  have f2: "closed_fs fs2 \<and> fs_is_dir fs2 t \<and> agree (\<lambda>q. \<not> prefix t q) fs1 fs2"
    using extract_zip_frame [OF ez c1 d1] .
  have out2: "\<And>q. \<not> prefix t q \<Longrightarrow> node_at fs2 q = node_at fs q"
  proof -
    fix q assume q: "\<not> prefix t q"
    then have "q \<noteq> t" by auto
    then show "node_at fs2 q = node_at fs q" using f2 q n1 by (simp add: agree_def)
  qed
  obtain r3 fs3 where b: "(case extract_zip fs1 zp t of
                   (Inl e, fs2) \<Rightarrow> (Inl e, fs2)
                 | (Inr u, fs2) \<Rightarrow> process_extracted zp final t fs2) = (r3, fs3)"
    by (cases "case extract_zip fs1 zp t of
                   (Inl e, fs2) \<Rightarrow> (Inl e, fs2)
                 | (Inr u, fs2) \<Rightarrow> process_extracted zp final t fs2")
  have res: "r = r3" "fs' = remove_tree fs3 t"
    using pz Inr b by (simp_all add: process_one_zip_def t_def [symmetric] Let_def)
  have clean: "\<And>q. agree (\<lambda>q. \<not> prefix t q) fs2 fs3 \<Longrightarrow> node_at fs' q = node_at fs q"
  proof -
    fix q assume a: "agree (\<lambda>q. \<not> prefix t q) fs2 fs3"
    show "node_at fs' q = node_at fs q"
    proof (cases "q = []")
      case True
      then show ?thesis by (simp add: node_at_Nil)
    next
      case False
      then show ?thesis using a out2 under
        by (simp add: res(2) node_at_remove_tree agree_def)
    qed
  qed
  show ?thesis
  proof (cases re)
    case (Inl e)
    then have e3: "r3 = Inl e" "fs3 = fs2" using b ez by simp_all
    have "agree (\<lambda>q. \<not> prefix t q) fs2 fs3" unfolding e3 by (rule agree_refl)
    then show ?thesis using res clean e3 f2 closed_remove_tree by simp
  next
    case (Inr u)
    then have pe: "process_extracted zp final t fs2 = (r3, fs3)" using b ez by simp
    have d2: "fs_is_dir fs2 final" using out2 [OF ntf] d by (simp add: fs_is_dir_def)
    have ok: "closed_fs fs3 \<and>
     (case r3 of
        Inl e \<Rightarrow> agree (\<lambda>q. \<not> prefix t q) fs2 fs3
      | Inr v \<Rightarrow> \<not> fs_exists fs2 (fst v) \<and> (\<exists>x. fst v = final @ [x]) \<and> fs_is_dir fs3 (fst v) \<and>
                 agree (\<lambda>q. \<not> prefix t q \<and> \<not> prefix (fst v) q) fs2 fs3)"
      using process_extracted_ok [OF pe _ d2] f2 by simp
    have cl: "closed_fs fs'" using ok closed_remove_tree by (simp add: res(2))
    show ?thesis
    proof (cases r3)
      case (Inl e)
      then show ?thesis using ok res clean cl by simp
    next
      case v: (Inr v)
      define target where "target = fst v"
      have t2: "\<not> fs_exists fs2 target" and ch: "\<exists>x. target = final @ [x]"
        and d3: "fs_is_dir fs3 target"
        and a3: "agree (\<lambda>q. \<not> prefix t q \<and> \<not> prefix target q) fs2 fs3"
        using ok v by (simp_all add: target_def)
      have tt: "target \<noteq> t" using t2 f2 by (auto simp: fs_is_dir_def fs_exists_def)
      have npt: "\<not> prefix t target"
      proof
        assume p: "prefix t target"
        from ch obtain x where "target = final @ [x]" by blast
        then have "prefix t final" using p tt by (auto simp: prefix_snoc)
        then show False using ntf by simp
      qed
      have 1: "\<not> fs_exists fs target" using out2 [OF npt] t2 by (simp add: fs_exists_def)
      have 2: "fs_is_dir fs' target"
        using d3 npt ch by (auto simp: res(2) fs_is_dir_def node_at_remove_tree)
      have 3: "agree (\<lambda>q. \<not> prefix target q) fs fs'"
        unfolding agree_def
      proof (intro allI impI)
        fix q assume q: "\<not> prefix target q"
        show "node_at fs' q = node_at fs q"
        proof (cases "q = []")
          case True
          then show ?thesis by (simp add: node_at_Nil)
        next
          case False
          show ?thesis
          proof (cases "prefix t q")
            case True
            then show ?thesis using False under by (simp add: res(2) node_at_remove_tree)
          next
            case F: False
            then have "node_at fs3 q = node_at fs2 q" using a3 q by (simp add: agree_def)
            then show ?thesis using False F out2 by (simp add: res(2) node_at_remove_tree)
          qed
        qed
      qed
      show ?thesis using 1 2 3 ch cl v res(1) by (simp add: target_def)
    qed
  qed
qed

section \<open>The routing of an archive\<close>

lemma mkdir_exist_ok:
  assumes "fs_is_dir fs b" "\<not> fs_is_file fs (b @ [x])"
  shows "\<exists>fs1. path_mkdir False True fs (b @ [x]) = Inr fs1 \<and>
     (\<forall>q. node_at fs1 q = (if q = b @ [x] then Some Dir else node_at fs q))"
proof (cases "fs_exists fs (b @ [x])")
  case False
  then have "path_mkdir False True fs (b @ [x]) = Inr (fs @ [(b @ [x], Dir)])"
    using path_mkdir_child [OF assms(1)] by simp
  moreover have "os_mkdir fs (b @ [x]) = Inr (fs @ [(b @ [x], Dir)])"
    using assms(1) False by (simp add: os_mkdir_def fs_is_dir_def)
  ultimately show ?thesis using os_mkdir_node by blast
next
  case True
  then have d: "fs_is_dir fs (b @ [x])"
    using assms(2) by (auto simp: fs_exists_def fs_is_file_def fs_is_dir_def split: option.splits node.splits)
  have "os_mkdir fs (b @ [x]) = Inl FileExistsError" using True by (simp add: os_mkdir_def)
  then have "path_mkdir False True fs (b @ [x]) = Inr fs"
    using d by (simp add: path_mkdir.simps [of False True fs "b @ [x]"])
  then show ?thesis using d by (auto simp: fs_is_dir_def)
qed

lemma route_failed_ok:
  assumes dir: "fs_is_dir fs input_dir" and zf: "node_at fs zp = Some (File d)"
    and nf: "\<not> fs_is_file fs (input_dir @ [''_failed''])"
    and nd: "\<not> fs_is_dir fs (input_dir @ [''_failed'', path_name zp])"
  shows "\<exists>fs'. route_failed input_dir zp fs = Inr fs' \<and>
     (\<forall>q. node_at fs' q =
        (if q = input_dir @ [''_failed'', path_name zp] then Some (File d)
         else if q = zp then None
         else if q = input_dir @ [''_failed''] then Some Dir
         else node_at fs q))"
proof -
  let ?failed = "input_dir @ [''_failed'']"
  let ?dst = "input_dir @ [''_failed'', path_name zp]"
  from mkdir_exist_ok [OF dir nf] obtain fs1 where
    mk: "path_mkdir False True fs ?failed = Inr fs1" and
    n1: "\<And>q. node_at fs1 q = (if q = ?failed then Some Dir else node_at fs q)" by blast
  have zne: "zp \<noteq> ?failed"
  proof
    assume "zp = ?failed"
    then show False using zf nf by (simp add: fs_is_file_def)
  qed
  have z1: "node_at fs1 zp = Some (File d)" using n1 zne zf by simp
  have nd1: "\<not> fs_is_dir fs1 ?dst" using nd n1 by (simp add: fs_is_dir_def)
  have par: "node_at fs1 (butlast ?dst) = Some Dir" using n1 by (simp add: butlast_append)
  define fs2 where "fs2 = filter (\<lambda>(q, n). q \<noteq> zp \<and> q \<noteq> ?dst) fs1 @ [(?dst, File d)]"
  have mv: "shutil_move fs1 zp (?failed @ [path_name zp]) = Inr fs2"
    using shutil_move_file [OF nd1 z1 par] by (simp add: fs2_def)
  have r: "route_failed input_dir zp fs = Inr fs2"
    using mk mv by (simp add: route_failed_def Let_def)
  have "\<And>q. node_at fs2 q = (if q = ?dst then Some (File d) else if q = zp then None else node_at fs1 q)"
    using shutil_move_node [OF mv] nd1 z1 by (auto simp: Let_def)
  then have "\<forall>q. node_at fs2 q =
        (if q = ?dst then Some (File d) else if q = zp then None
         else if q = ?failed then Some Dir else node_at fs q)"
    using n1 by simp
  then show ?thesis using r by blast
qed

lemma process_zip_step_failed:
  assumes "process_one_zip tmpname zp final tmp_base (st_fs s) = (Inl e, fs1)"
  shows "process_zip_step tmpname input_dir final tmp_base zp s =
     (case route_failed input_dir zp fs1 of
        Inl e' \<Rightarrow> Inl e'
      | Inr fs2 \<Rightarrow> Inr (s\<lparr>st_fs := fs2\<rparr>))"
  using assms by (simp add: process_zip_step_def)

lemma process_one_zip_bad:
  assumes mk: "os_mkdir fs (tmp_base @ [tmpname]) = Inr fs1"
    and z: "node_at fs zp = Some (File d)" and a: "archive d = None"
  shows "process_one_zip tmpname zp final tmp_base fs =
     (Inl (RuntimeError (''Bad zip file: '' @ path_str zp)), remove_tree fs1 (tmp_base @ [tmpname]))"
proof -
  have "zp \<noteq> tmp_base @ [tmpname]"
    using os_mkdir_Inr [OF mk] z by (auto simp: fs_exists_def)
  then have "node_at fs1 zp = Some (File d)" using os_mkdir_node [OF mk] z by simp
  then have "extract_zip fs1 zp (tmp_base @ [tmpname]) =
     (Inl (RuntimeError (''Bad zip file: '' @ path_str zp)), fs1)"
    using a by (simp add: extract_zip_def)
  then show ?thesis using mk by (simp add: process_one_zip_def Let_def)
qed


lemma process_one_zip_Inr_file:
  assumes "process_one_zip tmpname zp final tmp_base fs = (Inr v, fs')"
  shows "\<exists>d ms. node_at fs zp = Some (File d) \<and> archive d = Some ms"
proof (cases "os_mkdir fs (tmp_base @ [tmpname])")
  case (Inl e)
  then show ?thesis using assms by (simp add: process_one_zip_def)
next
  case (Inr fs1)
  obtain re fs2 where ez: "extract_zip fs1 zp (tmp_base @ [tmpname]) = (re, fs2)"
    by (cases "extract_zip fs1 zp (tmp_base @ [tmpname])")
  have "\<exists>u. re = Inr u"
  proof (cases re)
    case (Inl e)
    then show ?thesis using assms Inr ez by (simp add: process_one_zip_def Let_def)
  next
    case (Inr u)
    then show ?thesis by blast
  qed
  then obtain d ms where d: "node_at fs1 zp = Some (File d)" "archive d = Some ms"
    using ez by (auto simp: extract_zip_def split: option.splits node.splits)
  have "node_at fs1 (tmp_base @ [tmpname]) = Some Dir" using os_mkdir_node [OF Inr] by simp
  then have "zp \<noteq> tmp_base @ [tmpname]" using d(1) by auto
  then have "node_at fs zp = Some (File d)" using os_mkdir_node [OF Inr] d(1) by simp
  then show ?thesis using d(2) by blast
qed

text \<open>
  C1. Let \<open>process_one_zip\<close> succeed on an archive, in a filesystem whose entries are
  in directories and that has the output base directory, and let \<open>insert_model\<close> raise
  for the record. Then the turn of the loop ends without an exception; the directory that
  the relocation made (it did not exist before, and exists after \<open>process_one_zip\<close>) is
  gone with all that is in it; every path holds what it held before the turn, so the
  archive is the file it was, where it was, and nothing was put into \<open>_processed\<close> or
  \<open>_failed\<close>; the table is unchanged; and the loop goes on with the archives that are left.
\<close>

theorem insert_failure_rollback:
  assumes "closed_fs (st_fs s)" and "fs_is_dir (st_fs s) final"
    and "process_one_zip (tmpnames i) zp final tmp_base (st_fs s) = (Inr (target, md), fs1)"
    and "insert_model md (st_db s) = Inl e"
  shows "\<exists>s'. process_zip_step (tmpnames i) input_dir final tmp_base zp s = Inr s' \<and>
     st_db s' = st_db s \<and>
     \<not> fs_exists (st_fs s) target \<and> fs_is_dir fs1 target \<and>
     (\<forall>q. prefix target q \<longrightarrow> \<not> fs_exists (st_fs s') q) \<and>
     (\<forall>q. node_at (st_fs s') q = node_at (st_fs s) q) \<and>
     fs_is_file (st_fs s') zp \<and>
     process_loop tmpnames i input_dir final tmp_base (zp # rest) s =
       process_loop tmpnames (i + 1) input_dir final tmp_base rest s'"
proof -
  define s' where "s' = s\<lparr>st_fs := remove_if_exists fs1 target\<rparr>"
  have step: "process_zip_step (tmpnames i) input_dir final tmp_base zp s = Inr s'"
    using assms(3,4) by (simp add: process_zip_step_def s'_def)
  have ok: "\<not> fs_exists (st_fs s) target" "\<exists>x. target = final @ [x]" "fs_is_dir fs1 target"
    "agree (\<lambda>q. \<not> prefix target q) (st_fs s) fs1"
    using process_one_zip_ok [OF assms(3,1,2)] by simp_all
  have f: "st_fs s' = remove_tree fs1 target"
    using ok(3) by (simp add: s'_def remove_if_exists_dir)
  have tne: "target \<noteq> []" using ok(2) by auto
  have gone: "\<forall>q. prefix target q \<longrightarrow> \<not> fs_exists (st_fs s') q"
  proof (intro allI impI)
    fix q assume p: "prefix target q"
    then have "q \<noteq> []" using tne by auto
    then show "\<not> fs_exists (st_fs s') q" using p by (simp add: f fs_exists_def node_at_remove_tree)
  qed
  have same: "\<forall>q. node_at (st_fs s') q = node_at (st_fs s) q"
  proof
    fix q
    show "node_at (st_fs s') q = node_at (st_fs s) q"
    proof (cases "q = []")
      case True
      then show ?thesis by (simp add: node_at_Nil)
    next
      case False
      show ?thesis
      proof (cases "prefix target q")
        case True
        then have "node_at (st_fs s) q = None"
          using closed_nothing_under [OF assms(1) ok(1)] by simp
        then show ?thesis using True False by (simp add: f node_at_remove_tree)
      next
        case F: False
        then show ?thesis using ok(4) False by (simp add: f node_at_remove_tree agree_def)
      qed
    qed
  qed
  from process_one_zip_Inr_file [OF assms(3)] obtain d where "node_at (st_fs s) zp = Some (File d)"
    by blast
  then have isf: "fs_is_file (st_fs s') zp" using same by (simp add: fs_is_file_def)
  have loop: "process_loop tmpnames i input_dir final tmp_base (zp # rest) s =
       process_loop tmpnames (i + 1) input_dir final tmp_base rest s'"
    using step by simp
  show ?thesis using step ok(1,3) gone same isf loop by (auto simp: s'_def)
qed


theorem insert_failure_rollback_witness:
  "process_zip_step ''w'' [''in''] [''out''] [''tmp''] [''in'', ''m.zip'']
     \<lparr>st_fs = [([''in''], Dir),
               ([''in'', ''m.zip''], File (FData (Some [([''m.obj''], Intact (FData None None)),
                  ([''m.jpg''], Intact (FData None None)), ([''m.txt''], Intact (FData None (Some [])))]) None)),
               ([''out''], Dir), ([''tmp''], Dir)],
      st_db = [\<lparr>model_name = ''m'', format = [79, 66, 74], source_url = None,
          download_date = None, created_by = None, created_in = None,
          uploaded_by = None, model_description = None,
          polygon_count = None, preview_file = Some ''old.jpg''\<rparr>]\<rparr>
   = Inr \<lparr>st_fs = [([''in''], Dir),
               ([''in'', ''m.zip''], File (FData (Some [([''m.obj''], Intact (FData None None)),
                  ([''m.jpg''], Intact (FData None None)), ([''m.txt''], Intact (FData None (Some [])))]) None)),
               ([''out''], Dir), ([''tmp''], Dir)],
      st_db = [\<lparr>model_name = ''m'', format = [79, 66, 74], source_url = None,
          download_date = None, created_by = None, created_in = None,
          uploaded_by = None, model_description = None,
          polygon_count = None, preview_file = Some ''old.jpg''\<rparr>]\<rparr>"
proof -
  define fs0 :: filesys where "fs0 = [([''in''], Dir),
               ([''in'', ''m.zip''], File (FData (Some [([''m.obj''], Intact (FData None None)),
                  ([''m.jpg''], Intact (FData None None)), ([''m.txt''], Intact (FData None (Some [])))]) None)),
               ([''out''], Dir), ([''tmp''], Dir)]"
  define row :: model_data where "row = \<lparr>model_name = ''m'', format = [79, 66, 74], source_url = None,
          download_date = None, created_by = None, created_in = None,
          uploaded_by = None, model_description = None,
          polygon_count = None, preview_file = Some ''old.jpg''\<rparr>"
  define md :: model_data where "md = \<lparr>model_name = ''m'', format = [79, 66, 74], source_url = None,
          download_date = None, created_by = None, created_in = None,
          uploaded_by = None, model_description = None,
          polygon_count = None, preview_file = Some ''m.jpg''\<rparr>"
  define fs1 :: filesys where "fs1 = fs0 @ [([''out'', ''m''], Dir),
      ([''out'', ''m'', ''m.obj''], File (FData None None)),
      ([''out'', ''m'', ''m.jpg''], File (FData None None)),
      ([''out'', ''m'', ''m.txt''], File (FData None (Some [])))]"
  define s where "s = \<lparr>st_fs = fs0, st_db = [row]\<rparr>"
  have "wf_fs fs0" unfolding fs0_def by code_simp
  then have c: "closed_fs (st_fs s)" using wf_fs_closed by (simp add: s_def)
  have d: "fs_is_dir (st_fs s) [''out'']" unfolding s_def fs0_def by code_simp
  have "process_one_zip ''w'' [''in'', ''m.zip''] [''out''] [''tmp''] fs0 = (Inr ([''out'', ''m''], md), fs1)"
    unfolding fs0_def fs1_def md_def by code_simp
  then have p: "process_one_zip ''w'' [''in'', ''m.zip''] [''out''] [''tmp''] (st_fs s)
      = (Inr ([''out'', ''m''], md), fs1)"
    by (simp add: s_def)
  have "insert_model md [row] = Inl UniqueViolation" unfolding md_def row_def by code_simp
  then have i: "insert_model md (st_db s) = Inl UniqueViolation" by (simp add: s_def)
  have "\<exists>s'. process_zip_step ''w'' [''in''] [''out''] [''tmp''] [''in'', ''m.zip''] s = Inr s' \<and>
      st_db s' = st_db s"
    using insert_failure_rollback [where tmpnames = "\<lambda>i. ''w''" and i = 0 and s = s
        and final = "[''out'']" and zp = "[''in'', ''m.zip'']" and tmp_base = "[''tmp'']"
        and target = "[''out'', ''m'']" and md = md and ?fs1.0 = fs1 and e = UniqueViolation
        and input_dir = "[''in'']" and rest = "[]"] c d p i
    by blast
  then obtain s' where
    st: "process_zip_step ''w'' [''in''] [''out''] [''tmp''] [''in'', ''m.zip''] s = Inr s'"
    and db: "st_db s' = st_db s" by blast
  have ev: "remove_if_exists fs1 [''out'', ''m''] = fs0"
    unfolding fs1_def fs0_def by code_simp
  have "s' = s\<lparr>st_fs := remove_if_exists fs1 [''out'', ''m'']\<rparr>"
    using st p i by (simp add: process_zip_step_def)
  then have "s' = s" using ev by (simp add: s_def)
  then show ?thesis using st unfolding s_def fs0_def row_def by simp
qed

end
